theory Spec2Isabelle
  imports Main
begin

section \<open>LBR Tool: a model of lbr.cpp\<close>

text \<open>
  Bytes are HOL characters (\<^typ>\<open>char\<close> has 256 values), byte strings are
  \<^typ>\<open>string\<close>. The two file-level flags of lbr.cpp (\<open>verbose\<close>,
  \<open>convert_petscii\<close>) are fields of an environment record that every function
  takes. The record also fixes what C++ leaves to the implementation or leaves
  indeterminate and the program nevertheless reads:
  \<^item> \<open>char_signed\<close>: whether plain \<open>char\<close> is signed (it is with g++ on x86);
  \<^item> \<open>stale_flag i\<close>: the value read from \<open>FileEntry::bad_length\<close> of the
    \<open>i\<close>-th parsed entry when the source never assigned it;
  \<^item> \<open>stale_byte i\<close>: the byte at index \<open>i\<close> of a \<open>new char[n]\<close> buffer
    that \<open>read\<close> did not fill.
\<close>

record env =
  verbose :: bool
  convert_petscii :: bool
  char_signed :: bool
  stale_flag :: "nat \<Rightarrow> bool"
  stale_byte :: "nat \<Rightarrow> char"

definition CR :: char where
  "CR = CHR 0x0D"

definition NUL :: char where
  "NUL = CHR 0x00"

text \<open>The value of a \<open>char\<close> after integral promotion to \<open>int\<close>.\<close>

definition cval :: "env \<Rightarrow> char \<Rightarrow> int" where
  "cval e c = (let n = of_char c in if char_signed e \<and> n \<ge> 128 then n - 256 else n)"

subsection \<open>Text codec (lbr.cpp, lines 62-110)\<close>

definition petscii2ascii_char :: "env \<Rightarrow> char \<Rightarrow> char" where
  "petscii2ascii_char e c =
     (let v = cval e c in
      if v < 0x20 then CHR ''?''
      else if v \<ge> 0x61 \<and> v \<le> 0x7A then char_of (v - 0x20)
      else if v \<ge> 0xC1 \<and> v \<le> 0xCA then char_of (v - 0x80)
      else if v = 0x5B \<or> v = 0x5D then c
      else if v > 0x5A then CHR ''?''
      else c)"

definition petscii2ascii :: "env \<Rightarrow> string \<Rightarrow> string" where
  "petscii2ascii e petscii =
     (if \<not> convert_petscii e then petscii else map (petscii2ascii_char e) petscii)"

definition ascii2petscii_char :: "env \<Rightarrow> char \<Rightarrow> char" where
  "ascii2petscii_char e c =
     (let v = cval e c in
      if v < 0x20 then CHR ''?''
      else if v = 0x5C then CHR ''/''
      else if v = 0x5F then CHR '' ''
      else if v = 0x60 then CHR 0x27
      else if v \<ge> 0x61 \<and> v \<le> 0x7A then char_of (v - 0x20)
      else if v = 0x7B then CHR ''(''
      else if v = 0x7D then CHR '')''
      else if v = 0x7C then CHR ''/''
      else if v > 0x7C then CHR ''?''
      else c)"

definition ascii2petscii :: "env \<Rightarrow> string \<Rightarrow> string" where
  "ascii2petscii e ascii =
     (if \<not> convert_petscii e then ascii else map (ascii2petscii_char e) ascii)"

text \<open>The environment of a default run on x86: conversion on, not verbose, signed
  \<open>char\<close>, indeterminate memory reading as zero.\<close>

definition default_env :: env where
  "default_env = \<lparr>verbose = False, convert_petscii = True, char_signed = True,
     stale_flag = (\<lambda>_. False), stale_byte = (\<lambda>_. CHR 0x00)\<rparr>"

text \<open>Character classes used to state the codec's round trip. \<open>claimed_char\<close> is the
  subset the specification calls stable: letters, digits and the special-cased
  punctuation. \<open>stable_char\<close> is the subset on which the round trip is the identity:
  the bytes 0x20..0x5B (space, digits, upper-case letters, the punctuation between
  them, the opening bracket) and 0x5D (the closing bracket).\<close>

definition is_upper :: "char \<Rightarrow> bool" where
  "is_upper c = (0x41 \<le> (of_char c :: int) \<and> (of_char c :: int) \<le> 0x5A)"

definition is_lower :: "char \<Rightarrow> bool" where
  "is_lower c = (0x61 \<le> (of_char c :: int) \<and> (of_char c :: int) \<le> 0x7A)"

definition is_digit :: "char \<Rightarrow> bool" where
  "is_digit c = (0x30 \<le> (of_char c :: int) \<and> (of_char c :: int) \<le> 0x39)"

definition special_punct :: "char \<Rightarrow> bool" where
  "special_punct c = (c \<in> set [CHR 0x5C, CHR ''_'', CHR 0x60, CHR ''{'', CHR ''}'', CHR ''|''])"

definition claimed_char :: "char \<Rightarrow> bool" where
  "claimed_char c = (is_upper c \<or> is_lower c \<or> is_digit c \<or> special_punct c)"

definition stable_char :: "char \<Rightarrow> bool" where
  "stable_char c = ((0x20 \<le> (of_char c :: int) \<and> (of_char c :: int) \<le> 0x5B) \<or> (of_char c :: int) = 0x5D)"

text \<open>What a character of the claimed subset comes back as.\<close>

definition folded :: "char \<Rightarrow> char" where
  "folded c =
     (if is_lower c then char_of ((of_char c :: int) - 0x20)
      else if c = CHR 0x5C \<or> c = CHR ''|'' then CHR ''/''
      else if c = CHR ''_'' then CHR '' ''
      else if c = CHR 0x60 then CHR 0x27
      else if c = CHR ''{'' then CHR ''(''
      else if c = CHR ''}'' then CHR '')''
      else c)"


subsection \<open>Numbers as text: atoi, std::to_string, operator<<\<close>

text \<open>
  \<open>atoi\<close> as glibc implements it on a 64-bit system: \<open>(int) strtol(s, NULL, 10)\<close>.
  \<open>strtol\<close> skips white space, reads an optional sign and the decimal digits that
  follow, and saturates at the bounds of \<open>long\<close>; the conversion to \<open>int\<close> keeps the
  low 32 bits. A text with no digits gives 0.
\<close>

definition is_space :: "char \<Rightarrow> bool" where
  "is_space c = (c = CHR '' '' \<or> (9 \<le> (of_char c :: int) \<and> (of_char c :: int) \<le> 13))"

definition digit_val :: "char \<Rightarrow> int" where
  "digit_val c = of_char c - 48"

fun digits_value :: "int \<Rightarrow> string \<Rightarrow> int" where
  "digits_value acc [] = acc"
| "digits_value acc (c # cs) =
     (if is_digit c then digits_value (acc * 10 + digit_val c) cs else acc)"

definition strtol :: "string \<Rightarrow> int" where
  "strtol s =
     (let t = dropWhile is_space s in
      case t of
        [] \<Rightarrow> 0
      | c # r \<Rightarrow>
          if c = CHR ''-'' then max (- (2 ^ 63)) (- digits_value 0 r)
          else if c = CHR ''+'' then min (2 ^ 63 - 1) (digits_value 0 r)
          else min (2 ^ 63 - 1) (digits_value 0 t))"

text \<open>Conversion of an integer to \<open>int\<close> (32 bits, two's complement) and to
  \<open>unsigned int\<close>. All numbers of the program are integers of HOL; an unsigned
  value is one in the range from 0 to \<open>2 ^ 32 - 1\<close>.\<close>

definition to_int32 :: "int \<Rightarrow> int" where
  "to_int32 x = (x + 2 ^ 31) mod 2 ^ 32 - 2 ^ 31"

definition to_uint32 :: "int \<Rightarrow> int" where
  "to_uint32 x = x mod 2 ^ 32"

definition atoi :: "string \<Rightarrow> int" where
  "atoi s = to_int32 (strtol s)"

text \<open>Decimal output of an unsigned value (\<open>out << files.size()\<close>,
  \<open>out << a.length\<close>) and of an \<open>int\<close> (\<open>std::to_string\<close>).\<close>

function dec :: "int \<Rightarrow> string" where
  "dec n = (if n < 10 then [char_of (48 + n)] else dec (n div 10) @ [char_of (48 + n mod 10)])"
  by pat_completeness auto
termination
  by (relation "measure nat") auto

declare dec.simps [simp del]

definition to_string :: "int \<Rightarrow> string" where
  "to_string i = (if i < 0 then CHR ''-'' # dec (- i) else dec i)"

definition MAX_SANE_LENGTH :: int where
  "MAX_SANE_LENGTH = 1024 * 1024"

subsection \<open>Files and input streams\<close>

text \<open>
  The file system maps a path to the bytes of the regular file there. Paths are
  compared as texts. Opening a file for writing and writing to it are taken to
  succeed.

  An \<open>std::ifstream\<close> is the bytes of the file, the read position and the state
  bits \<open>eofbit\<close> and \<open>failbit\<close> (\<open>badbit\<close> is never set by the operations used).
  The operations follow the C++17 standard's unformatted input functions: each
  starts with a sentry that sets \<open>failbit\<close> and does nothing else unless the stream
  is good.
\<close>

type_synonym filesystem = "string \<rightharpoonup> string"

record istream =
  buf :: string
  pos :: nat
  eofbit :: bool
  failbit :: bool

definition ifstream_open :: "filesystem \<Rightarrow> string \<Rightarrow> istream" where
  "ifstream_open fs p =
     (case fs p of
        Some d \<Rightarrow> \<lparr>buf = d, pos = 0, eofbit = False, failbit = False\<rparr>
      | None \<Rightarrow> \<lparr>buf = [], pos = 0, eofbit = False, failbit = True\<rparr>)"

definition good :: "istream \<Rightarrow> bool" where
  "good s = (\<not> eofbit s \<and> \<not> failbit s)"

definition rest :: "istream \<Rightarrow> string" where
  "rest s = drop (pos s) (buf s)"

text \<open>\<open>in.read(buffer, n)\<close>: the bytes stored; fewer than \<open>n\<close> set both bits.\<close>

definition read :: "nat \<Rightarrow> istream \<Rightarrow> string \<times> istream" where
  "read n s =
     (if \<not> good s then ([], s\<lparr>failbit := True\<rparr>)
      else let got = take n (rest s); s1 = s\<lparr>pos := pos s + length got\<rparr>
           in (got, if length got < n then s1\<lparr>eofbit := True, failbit := True\<rparr> else s1))"

text \<open>\<open>new char[n]\<close>, \<open>read(buffer, n)\<close>: the buffer afterwards. What \<open>read\<close> did not
  store is indeterminate.\<close>

definition read_buffer :: "env \<Rightarrow> nat \<Rightarrow> istream \<Rightarrow> string \<times> istream" where
  "read_buffer e n s =
     (let (got, s1) = read n s in (got @ map (stale_byte e) [length got..<n], s1))"

text \<open>\<open>in.ignore(n)\<close>: reaching the end before \<open>n\<close> bytes sets \<open>eofbit\<close> only.\<close>

definition ignore :: "nat \<Rightarrow> istream \<Rightarrow> istream" where
  "ignore n s =
     (if \<not> good s then s\<lparr>failbit := True\<rparr>
      else let k = min n (length (rest s)); s1 = s\<lparr>pos := pos s + k\<rparr>
           in if k < n then s1\<lparr>eofbit := True\<rparr> else s1)"

text \<open>The text of a \<open>char\<close> array read as a C string: up to the first NUL.\<close>

definition c_str :: "string \<Rightarrow> string" where
  "c_str x = takeWhile (\<lambda>c. c \<noteq> NUL) x"

text \<open>
  \<open>in.get(array, n, delim)\<close>: stores bytes until \<open>n - 1\<close> are stored, the end is
  reached (\<open>eofbit\<close>) or the next byte is the delimiter, which stays in the stream;
  storing nothing sets \<open>failbit\<close>. The array is then used as a C string.
\<close>

definition get_str :: "nat \<Rightarrow> char \<Rightarrow> istream \<Rightarrow> string \<times> istream" where
  "get_str n delim s =
     (if \<not> good s then ([], s\<lparr>failbit := True\<rparr>)
      else let r = rest s;
               ext = take (n - 1) (takeWhile (\<lambda>c. c \<noteq> delim) r);
               s1 = s\<lparr>pos := pos s + length ext\<rparr>;
               s2 = (if length ext < n - 1 \<and> length ext = length r then s1\<lparr>eofbit := True\<rparr> else s1);
               s3 = (if ext = [] then s2\<lparr>failbit := True\<rparr> else s2)
           in (c_str ext, s3))"

text \<open>\<open>in.get(c)\<close> and \<open>in.get()\<close>: one byte, or nothing and both bits at the end.\<close>

definition get_char :: "istream \<Rightarrow> char option \<times> istream" where
  "get_char s =
     (if \<not> good s then (None, s\<lparr>failbit := True\<rparr>)
      else case rest s of
             [] \<Rightarrow> (None, s\<lparr>eofbit := True, failbit := True\<rparr>)
           | c # _ \<Rightarrow> (Some c, s\<lparr>pos := pos s + 1\<rparr>))"

text \<open>\<open>std::fputc(in.get(), tmpf)\<close>: at the end \<open>get()\<close> returns \<open>EOF\<close>, which
  \<open>fputc\<close> writes as the byte 0xFF.\<close>

definition get_put :: "istream \<Rightarrow> char \<times> istream" where
  "get_put s = (case get_char s of (None, s1) \<Rightarrow> (CHR 0xFF, s1) | (Some c, s1) \<Rightarrow> (c, s1))"

text \<open>\<open>in.tellg()\<close>: -1 unless the stream is good.\<close>

definition tellg :: "istream \<Rightarrow> int \<times> istream" where
  "tellg s = (if \<not> good s then (- 1, s\<lparr>failbit := True\<rparr>) else (int (pos s), s))"

text \<open>\<open>in.seekg(off, in.beg)\<close> and \<open>in.seekg(0, in.end)\<close>: \<open>eofbit\<close> is cleared first;
  a position past the end is accepted, a negative one fails.\<close>

definition seekg_beg :: "int \<Rightarrow> istream \<Rightarrow> istream" where
  "seekg_beg off s =
     (let s1 = s\<lparr>eofbit := False\<rparr>
      in if failbit s1 then s1
         else if off < 0 then s1\<lparr>failbit := True\<rparr>
         else s1\<lparr>pos := nat off\<rparr>)"

definition seekg_end :: "istream \<Rightarrow> istream" where
  "seekg_end s =
     (let s1 = s\<lparr>eofbit := False\<rparr>
      in if failbit s1 then s1 else s1\<lparr>pos := length (buf s1)\<rparr>)"

text \<open>\<open>std::fputs(s, tmpf)\<close> writes a C string.\<close>

definition fputs :: "string \<Rightarrow> string" where
  "fputs x = c_str x"

subsection \<open>Paths (std::filesystem::path on POSIX)\<close>

definition filename :: "string \<Rightarrow> string" where
  "filename p = rev (takeWhile (\<lambda>c. c \<noteq> CHR ''/'') (rev p))"

text \<open>The extension is the part of the file name from its last period on; a file
  name whose only period is the first character, and the names \<open>.\<close> and \<open>..\<close>,
  have none.\<close>

definition extension :: "string \<Rightarrow> string" where
  "extension p =
     (let f = filename p
      in if f = ''.'' \<or> f = ''..'' \<or> CHR ''.'' \<notin> set (tl f) then []
         else CHR ''.'' # rev (takeWhile (\<lambda>c. c \<noteq> CHR ''.'') (rev f)))"

text \<open>\<open>fp = dest; fp /= name\<close>: an absolute \<open>name\<close> replaces the path; a separator is
  added when the path ends in a file name.\<close>

definition path_append :: "string \<Rightarrow> string \<Rightarrow> string" where
  "path_append p q =
     (if q \<noteq> [] \<and> hd q = CHR ''/'' then q
      else if p \<noteq> [] \<and> last p \<noteq> CHR ''/'' then p @ ''/'' @ q
      else p @ q)"

text \<open>\<open>std::tolower\<close> in the C locale.\<close>

definition tolower :: "char \<Rightarrow> char" where
  "tolower c = (if is_upper c then char_of ((of_char c :: int) + 0x20) else c)"


subsection \<open>FileEntry and num_cmp (lbr.cpp, lines 54-60 and 112-118)\<close>

text \<open>\<open>length\<close> is an \<open>unsigned int\<close>: an integer from 0 to \<open>2 ^ 32 - 1\<close>. A field the
  source does not assign is empty (a default-constructed \<open>std::string\<close>) or, for
  \<open>bad_length\<close>, indeterminate.\<close>

record FileEntry =
  name :: string
  path :: string
  length_u :: int
  type_s :: string
  bad_length :: bool

text \<open>\<open>std::string::compare(...) < 0\<close>: lexicographic on the bytes as unsigned
  values, a proper prefix being smaller.\<close>

fun compare_less :: "string \<Rightarrow> string \<Rightarrow> bool" where
  "compare_less [] [] = False"
| "compare_less [] (b # bs) = True"
| "compare_less (a # as) [] = False"
| "compare_less (a # as) (b # bs) =
     (if (of_char a :: nat) < of_char b then True
      else if (of_char a :: nat) > of_char b then False
      else compare_less as bs)"

definition num_cmp :: "FileEntry \<Rightarrow> FileEntry \<Rightarrow> bool" where
  "num_cmp i j =
     (if length (name i) < length (name j) then True
      else if length (name i) > length (name j) then False
      else compare_less (name i) (name j))"

text \<open>\<open>std::sort(files.begin(), files.end(), num_cmp)\<close>, as an insertion sort. The
  standard fixes the result up to the order of entries that \<open>num_cmp\<close> does not
  separate (entries of equal name); this one keeps their order, which \<open>std::sort\<close> need
  not do. What is proved below of a sorted list uses the names of its first and last
  entries only, which are the same in every sorted order.\<close>

fun sort_insert :: "FileEntry \<Rightarrow> FileEntry list \<Rightarrow> FileEntry list" where
  "sort_insert x [] = [x]"
| "sort_insert x (y # ys) = (if num_cmp x y then x # y # ys else y # sort_insert x ys)"

definition std_sort :: "FileEntry list \<Rightarrow> FileEntry list" where
  "std_sort files = foldr sort_insert (rev files) []"

subsection \<open>build_lbr (lbr.cpp, lines 120-201)\<close>

datatype error =
  FilesystemError \<comment> \<open>\<open>std::filesystem::file_size\<close> throws: no such file\<close>
| UndefinedBehaviour \<comment> \<open>\<open>front()\<close> of an empty vector, an index past the end\<close>
| BadArrayLength \<comment> \<open>\<open>new char[n]\<close> with a negative \<open>n\<close> throws\<close>

text \<open>Lines 124-131: the entry of one input path.\<close>

definition stat_entry :: "filesystem \<Rightarrow> string \<Rightarrow> error + FileEntry" where
  "stat_entry fs i =
     (case fs i of
        None \<Rightarrow> Inl FilesystemError
      | Some d \<Rightarrow> Inr \<lparr>name = filename i, path = i, length_u = to_uint32 (int (length d)),
                        type_s = [], bad_length = False\<rparr>)"

fun stat_entries :: "filesystem \<Rightarrow> string list \<Rightarrow> error + FileEntry list" where
  "stat_entries fs [] = Inr []"
| "stat_entries fs (i # input) =
     (case stat_entry fs i of
        Inl err \<Rightarrow> Inl err
      | Inr f \<Rightarrow> (case stat_entries fs input of Inl err \<Rightarrow> Inl err | Inr files \<Rightarrow> Inr (f # files)))"

text \<open>Lines 147-150: the filler entry for the number \<open>i\<close>.\<close>

definition filler :: "int \<Rightarrow> FileEntry" where
  "filler i = \<lparr>name = to_string i, path = [], length_u = 0, type_s = [], bad_length = False\<rparr>"

definition insert_at :: "nat \<Rightarrow> 'a \<Rightarrow> 'a list \<Rightarrow> 'a list" where
  "insert_at k x xs = take k xs @ x # drop k xs"

text \<open>Lines 146-152: the inner \<open>while (i < cur)\<close> loop. Lines 143-153: the outer
  \<open>for\<close> loop. The arithmetic on \<open>int\<close> is taken not to overflow.\<close>

function pad_inner :: "int \<Rightarrow> int \<Rightarrow> FileEntry list \<Rightarrow> int \<Rightarrow> FileEntry list \<times> int" where
  "pad_inner first cur files i =
     (if i < cur then pad_inner first cur (insert_at (nat (i - first)) (filler i) files) (i + 1)
      else (files, i))"
  by pat_completeness auto
termination
  by (relation "measure (\<lambda>(first, cur, files, i). nat (cur - i))") auto

declare pad_inner.simps [simp del]

lemma pad_inner_mono: "i \<le> snd (pad_inner first cur files i)"
proof (induction first cur files i rule: pad_inner.induct)
  case (1 first cur files i)
  show ?case
  proof (cases "i < cur")
    case True
    with 1 show ?thesis by (simp add: pad_inner.simps [of first cur files i])
  next
    case False
    then show ?thesis by (simp add: pad_inner.simps [of first cur files i])
  qed
qed

function pad_outer :: "int \<Rightarrow> int \<Rightarrow> FileEntry list \<Rightarrow> int \<Rightarrow> error + FileEntry list" where
  "pad_outer first lst files i =
     (if i < lst then
        (if nat (i - first) \<ge> length files then Inl UndefinedBehaviour
         else let cur = atoi (name (files ! nat (i - first)));
                  r = pad_inner first cur files i
              in pad_outer first lst (fst r) (snd r + 1))
      else Inr files)"
  by pat_completeness auto
termination
  apply (relation "measure (\<lambda>(first, lst, files, i). nat (lst - i))")
   apply simp
  subgoal for first lst files i cur r
    using pad_inner_mono [of i first cur files] by simp
  done

declare pad_outer.simps [simp del]

text \<open>Lines 163-165 and 175-186: the type character of an entry.\<close>

definition type_of_entry :: "FileEntry \<Rightarrow> char" where
  "type_of_entry a =
     (let ext = map tolower (extension (name a))
      in if length_u a = 0 then CHR ''D''
         else if ext = ''.prg'' then CHR ''P''
         else if ext = ''.usr'' then CHR ''U''
         else if ext = ''.rel'' then CHR ''R''
         else CHR ''S'')"

text \<open>Lines 166-173: the name written, cut at its last period when
  \<open>strip_extension\<close> is set.\<close>

definition strip_name :: "bool \<Rightarrow> string \<Rightarrow> string" where
  "strip_name strip_extension nm =
     (if strip_extension \<and> CHR ''.'' \<in> set nm
      then rev (tl (dropWhile (\<lambda>c. c \<noteq> CHR ''.'') (rev nm)))
      else nm)"

text \<open>Lines 160-190: the directory record of one entry, and what a verbose run
  prints for it.\<close>

definition dir_record :: "env \<Rightarrow> bool \<Rightarrow> FileEntry \<Rightarrow> string" where
  "dir_record e strip_extension a =
     ascii2petscii e (strip_name strip_extension (name a)) @ [CR] @ [type_of_entry a] @ [CR]
       @ '' '' @ dec (length_u a) @ '' '' @ [CR]"

definition build_log :: "env \<Rightarrow> FileEntry list \<Rightarrow> string" where
  "build_log e files = (if verbose e then concat (map (\<lambda>a. ''+ '' @ name a) files) else [])"

text \<open>Lines 191-198: the payload of one entry, read from its file.\<close>

definition payload_of :: "env \<Rightarrow> filesystem \<Rightarrow> FileEntry \<Rightarrow> string" where
  "payload_of e fs f =
     (if length_u f = 0 then []
      else fst (read_buffer e (nat (length_u f)) (ifstream_open fs (path f))))"

text \<open>Lines 156-200. The output file is created empty when it is opened, before the
  payloads are read.\<close>

definition write_lbr :: "env \<Rightarrow> filesystem \<Rightarrow> string \<Rightarrow> bool \<Rightarrow> FileEntry list \<Rightarrow> filesystem" where
  "write_lbr e fs outfile strip_extension files =
     (let fs1 = fs(outfile \<mapsto> [])
      in fs1(outfile \<mapsto>
           ''DWB'' @ '' '' @ dec (int (length files)) @ '' '' @ [CR]
           @ concat (map (dir_record e strip_extension) files)
           @ concat (map (payload_of e fs1) files)))"

text \<open>The result of \<open>build_lbr\<close>: the value returned, the file system and the text
  printed, or the exception or undefined behaviour that ends the run.\<close>

definition build_lbr ::
  "env \<Rightarrow> filesystem \<Rightarrow> string \<Rightarrow> string list \<Rightarrow> bool \<Rightarrow> bool \<Rightarrow> bool
     \<Rightarrow> error + (int \<times> filesystem \<times> string)" where
  "build_lbr e fs outfile input numerical_sort numerical_padding strip_extension =
     (case stat_entries fs input of
        Inl err \<Rightarrow> Inl err
      | Inr files0 \<Rightarrow>
          if numerical_sort then
            (let files = std_sort files0
             in if numerical_padding then
                  (if files = [] then Inl UndefinedBehaviour
                   else let first = atoi (name (hd files));
                            lst = atoi (name (last files))
                        in if lst \<le> first then Inr (1, fs, ''Error. unable to pad.'')
                           else (case pad_outer first lst files first of
                                   Inl err \<Rightarrow> Inl err
                                 | Inr padded \<Rightarrow>
                                     Inr (0, write_lbr e fs outfile strip_extension padded,
                                          build_log e padded)))
                else Inr (0, write_lbr e fs outfile strip_extension files, build_log e files))
          else Inr (0, write_lbr e fs outfile strip_extension files0, build_log e files0))"

subsection \<open>Reading the header and a directory record\<close>

text \<open>
  \<open>extract_lbr\<close>, \<open>find_in_lbr\<close> and \<open>list_lbr\<close> read the header and each directory
  record with the same sequence of calls (lines 212-216 and 221-231, 309-313 and
  320-330, 590-594 and 603-613).
\<close>

definition read_count :: "istream \<Rightarrow> string \<times> istream" where
  "read_count s =
     (let s1 = ignore 1 s;
          (count, s2) = get_str 256 (CHR '' '') s1;
          s3 = ignore 1 s2;
          s4 = ignore 1 s3
      in (count, s4))"

definition read_entry :: "istream \<Rightarrow> (string \<times> string \<times> string) \<times> istream" where
  "read_entry s =
     (let (nm, s1) = get_str 256 CR s;
          s2 = ignore 1 s1;
          (ty, s3) = get_str 256 CR s2;
          s4 = ignore 1 s3;
          s5 = ignore 1 s4;
          (ln, s6) = get_str 256 (CHR '' '') s5;
          s7 = ignore 1 s6;
          s8 = ignore 1 s7
      in ((nm, ty, ln), s8))"

subsection \<open>list_lbr (lbr.cpp, lines 581-637)\<close>

text \<open>Lines 601-619: the loop that parses \<open>n\<close> records.\<close>

fun list_entries :: "nat \<Rightarrow> istream \<Rightarrow> FileEntry list \<times> istream" where
  "list_entries 0 s = ([], s)"
| "list_entries (Suc n) s =
     (let ((nm, ty, ln), s1) = read_entry s;
          f = \<lparr>name = nm, path = [], length_u = to_uint32 (atoi ln), type_s = ty,
               bad_length = False\<rparr>;
          (files, s2) = list_entries n s1
      in (f # files, s2))"

text \<open>Lines 622-634: the line of one entry. \<open>f.length < 0\<close> is never true of an
  unsigned value.\<close>

definition list_line :: "env \<Rightarrow> bool \<Rightarrow> FileEntry \<Rightarrow> string" where
  "list_line e skip_deleted f =
     (if type_s f = ''D'' \<and> skip_deleted then
        (if verbose e then ''[deleted]'' @ [CHR 0x0A] else [])
      else petscii2ascii e (name f) @ '' ('' @ petscii2ascii e (type_s f) @ '') ''
           @ dec (length_u f)
           @ (if length_u f > MAX_SANE_LENGTH \<and> verbose e then '' (bad)'' else [])
           @ [CHR 0x0A])"

definition list_lbr :: "env \<Rightarrow> filesystem \<Rightarrow> string \<Rightarrow> bool \<Rightarrow> bool \<Rightarrow> int \<times> string" where
  "list_lbr e fs file skip_deleted sort_numerical =
     (let (signature, s1) = read 3 (ifstream_open fs file)
      in if signature \<noteq> ''DWB'' then
           (- 1, ''Error: invalid signature, not an LBR file?'' @ [CHR 0x0A])
         else
           let (count, s2) = read_count s1;
               file_count = atoi count;
               banner = (if verbose e
                         then filename file @ '' '' @ to_string file_count @ '' entries'' @ [CHR 0x0A]
                         else []);
               (files0, s3) = list_entries (nat file_count) s2;
               files = (if sort_numerical then std_sort files0 else files0)
           in (0, banner @ concat (map (list_line e skip_deleted) files)))"


subsection \<open>extract_lbr (lbr.cpp, lines 203-298)\<close>

text \<open>Lines 219-242: the loop that parses \<open>n\<close> records, \<open>i\<close> being the index of the
  next one. It returns the entries, the text printed and the stream. \<open>bad_length\<close> is
  assigned only when the length is out of range.\<close>

fun extract_entries :: "env \<Rightarrow> nat \<Rightarrow> nat \<Rightarrow> istream \<Rightarrow> FileEntry list \<times> string \<times> istream" where
  "extract_entries e i 0 s = ([], [], s)"
| "extract_entries e i (Suc n) s =
     (let ((nm, ty, ln), s1) = read_entry s;
          len = atoi ln;
          bad = (len < 0 \<or> len > MAX_SANE_LENGTH);
          f = \<lparr>name = nm, path = [], length_u = to_uint32 len, type_s = ty,
               bad_length = (if bad then True else stale_flag e i)\<rparr>;
          (files, out, s2) = extract_entries e (Suc i) n s1
      in (f # files, (if bad then ''Found file with bad length'' @ [CHR 0x0A] else []) @ out, s2))"

text \<open>Lines 245-258: everything left in the stream goes to the file named after the
  entry.\<close>

definition dump_rest ::
  "env \<Rightarrow> string \<Rightarrow> FileEntry \<Rightarrow> istream \<Rightarrow> filesystem \<Rightarrow> error + (istream \<times> filesystem)" where
  "dump_rest e dest_folder f s fs =
     (let fp = path_append dest_folder (name f);
          fs1 = fs(fp \<mapsto> []);
          (p, s1) = tellg s;
          s2 = seekg_end s1;
          (q, s3) = tellg s2;
          len = to_int32 (q - p);
          s4 = seekg_beg p s3
      in if len < 0 then Inl BadArrayLength
         else let (buffer, s5) = read_buffer e (nat len) s4 in Inr (s5, fs1(fp \<mapsto> buffer)))"

text \<open>Lines 277-286: the extension added for a type.\<close>

definition type_extension :: "string \<Rightarrow> string" where
  "type_extension ty =
     (if ty = ''P'' then ''.prg''
      else if ty = ''S'' then ''.seq''
      else if ty = ''U'' then ''.usr''
      else if ty = ''R'' then ''.rel''
      else [])"

text \<open>Lines 243-294: the loop over the parsed entries. After \<open>in.ignore\<close> at line 273
  the body goes on to write the file.\<close>

fun extract_files ::
  "env \<Rightarrow> string \<Rightarrow> string list \<Rightarrow> bool \<Rightarrow> bool \<Rightarrow> FileEntry list \<Rightarrow> istream \<Rightarrow> filesystem
     \<Rightarrow> error + (istream \<times> filesystem)" where
  "extract_files e dest_folder targets skip_deleted add_extension [] s fs = Inr (s, fs)"
| "extract_files e dest_folder targets skip_deleted add_extension (f # files) s fs =
     (if bad_length f then dump_rest e dest_folder f s fs
      else if length_u f = 0 then
        extract_files e dest_folder targets skip_deleted add_extension files s fs
      else if type_s f = ''D'' \<and> skip_deleted then
        extract_files e dest_folder targets skip_deleted add_extension files
          (ignore (nat (length_u f)) s) fs
      else
        let found = (petscii2ascii e (name f) \<in> set targets);
            s1 = (if targets \<noteq> [] \<and> \<not> found then ignore (nat (length_u f)) s else s);
            ascii_name = petscii2ascii e (name f)
                         @ (if add_extension then type_extension (type_s f) else []);
            fp = path_append dest_folder ascii_name;
            (buffer, s2) = read_buffer e (nat (length_u f)) s1
        in extract_files e dest_folder targets skip_deleted add_extension files s2
             (fs(fp \<mapsto> buffer)))"

text \<open>A read of fewer than three bytes leaves the signature array partly
  indeterminate; the model takes it for a mismatch.\<close>

definition extract_lbr ::
  "env \<Rightarrow> filesystem \<Rightarrow> string \<Rightarrow> string \<Rightarrow> string list \<Rightarrow> bool \<Rightarrow> bool
     \<Rightarrow> error + (int \<times> filesystem \<times> string)" where
  "extract_lbr e fs infile dest_folder targets skip_deleted add_extension =
     (let (signature, s1) = read 3 (ifstream_open fs infile)
      in if signature \<noteq> ''DWB'' then
           Inr (1, fs, ''Error: invalid signature, not an LBR file?'' @ [CHR 0x0A])
         else
           let (count, s2) = read_count s1;
               file_count = atoi count;
               (files, out, s3) = extract_entries e 0 (nat file_count) s2
           in case extract_files e dest_folder targets skip_deleted add_extension files s3 fs of
                Inl err \<Rightarrow> Inl err
              | Inr (s4, fs') \<Rightarrow> Inr (0, fs', out))"

subsection \<open>find_in_lbr (lbr.cpp, lines 300-351)\<close>

text \<open>\<open>type[0]\<close> of a C string: NUL when the string is empty.\<close>

definition first_char :: "string \<Rightarrow> char" where
  "first_char ty = (case ty of [] \<Rightarrow> NUL | c # _ \<Rightarrow> c)"

text \<open>The variables the loop of lines 317-345 updates.\<close>

record find_state =
  coff :: int
  found :: bool
  length_v :: int
  diroffset_v :: int

text \<open>Lines 317-345. The result says whether the loop left by \<open>return -1\<close>.\<close>

fun find_loop ::
  "env \<Rightarrow> string \<Rightarrow> bool \<Rightarrow> nat \<Rightarrow> istream \<Rightarrow> find_state \<Rightarrow> bool \<times> istream \<times> find_state" where
  "find_loop e target skip_deleted 0 s st = (False, s, st)"
| "find_loop e target skip_deleted (Suc n) s st =
     (let (doff, s0) = tellg s;
          ((nm, ty, ln), s1) = read_entry s0;
          l = atoi ln;
          hit = (\<not> found st \<and> petscii2ascii e nm = target
                 \<and> (first_char ty \<noteq> CHR ''D'' \<or> \<not> skip_deleted));
          st1 = (if hit then st\<lparr>found := True, length_v := l, diroffset_v := doff\<rparr> else st);
          st2 = (if \<not> found st1 then st1\<lparr>coff := coff st1 + l\<rparr> else st1)
      in if l < 0 \<or> l > MAX_SANE_LENGTH then (True, s1, st2)
         else find_loop e target skip_deleted n s1 st2)"

text \<open>The result of \<open>find_in_lbr\<close>: the value returned, the reference parameters
  \<open>length\<close>, \<open>offset\<close> and \<open>diroffset\<close> as it leaves them, and the text printed.\<close>

definition find_in_lbr ::
  "env \<Rightarrow> filesystem \<Rightarrow> string \<Rightarrow> string \<Rightarrow> int \<Rightarrow> int \<Rightarrow> int \<Rightarrow> bool
     \<Rightarrow> int \<times> int \<times> int \<times> int \<times> string" where
  "find_in_lbr e fs infile target length0 offset0 diroffset0 skip_deleted =
     (let (signature, s1) = read 3 (ifstream_open fs infile)
      in if signature \<noteq> ''DWB'' then
           (- 1, length0, offset0, diroffset0,
            ''Error: invalid signature, not an LBR file?'' @ [CHR 0x0A])
         else
           let (count, s2) = read_count s1;
               file_count = atoi count;
               (aborted, s3, st) =
                 find_loop e target skip_deleted (nat file_count) s2
                   \<lparr>coff = 0, found = False, length_v = length0, diroffset_v = diroffset0\<rparr>
           in if aborted then
                (- 1, length_v st, offset0, diroffset_v st,
                 ''Found file with bad length'' @ [CHR 0x0A])
              else if found st then
                (0, length_v st, fst (tellg s3) + coff st, diroffset_v st, [])
              else (- 1, length_v st, offset0, diroffset_v st, []))"

subsection \<open>The copy loops of delete_lbr and chtype_lbr\<close>

lemma get_char_Some:
  assumes "get_char s = (Some c, s1)"
  shows "s1 = s\<lparr>pos := pos s + 1\<rparr> \<and> pos s < length (buf s) \<and> good s \<and> buf s ! pos s = c"
proof -
  from assms have g: "good s"
    by (auto simp: get_char_def split: if_splits)
  with assms obtain r where r: "rest s = c # r" and s1: "s1 = s\<lparr>pos := pos s + 1\<rparr>"
    by (auto simp: get_char_def split: list.splits)
  from r have lt: "pos s < length (buf s)"
    unfolding rest_def by (metis drop_eq_Nil list.distinct(1) not_le)
  from r lt have "buf s ! pos s = c"
    unfolding rest_def by (metis Cons_nth_drop_Suc list.inject)
  with g s1 lt show ?thesis by simp
qed

lemma tellg_state: "tellg s = (t, s2) \<Longrightarrow> pos s2 = pos s \<and> buf s2 = buf s"
  by (auto simp: tellg_def split: if_splits)

text \<open>\<open>while (in.get(c) && in.tellg() < dir_offset) fputc(c, tmpf);\<close> (lines 380-381
  and 438-439). The result carries \<open>c\<close>, which the next statement writes.\<close>

function copy_before :: "int \<Rightarrow> istream \<Rightarrow> string \<Rightarrow> char \<Rightarrow> istream \<times> string \<times> char" where
  "copy_before off s tmp c =
     (case get_char s of
        (None, s1) \<Rightarrow> (s1, tmp, c)
      | (Some c', s1) \<Rightarrow>
          (case tellg s1 of
             (t, s2) \<Rightarrow> if t < off then copy_before off s2 (tmp @ [c']) c' else (s2, tmp, c')))"
  by pat_completeness auto
termination
  apply (relation "measure (\<lambda>(off, s, tmp, c). length (buf s) - pos s)")
   apply simp
  apply (auto dest!: get_char_Some tellg_state sym [of "(Some _, _)"] sym [of "(_ :: int, _)"])
  done

declare copy_before.simps [simp del]

text \<open>\<open>while (in.get(c) && in.tellg() <= offset) fputc(c, tmpf);\<close> (lines 400-401).\<close>

function copy_upto :: "int \<Rightarrow> istream \<Rightarrow> string \<Rightarrow> istream \<times> string" where
  "copy_upto off s tmp =
     (case get_char s of
        (None, s1) \<Rightarrow> (s1, tmp)
      | (Some c', s1) \<Rightarrow>
          (case tellg s1 of
             (t, s2) \<Rightarrow> if t \<le> off then copy_upto off s2 (tmp @ [c']) else (s2, tmp)))"
  by pat_completeness auto
termination
  apply (relation "measure (\<lambda>(off, s, tmp). length (buf s) - pos s)")
   apply simp
  apply (auto dest!: get_char_Some tellg_state sym [of "(Some _, _)"] sym [of "(_ :: int, _)"])
  done

declare copy_upto.simps [simp del]

text \<open>\<open>while (in.get(c) && c != 0x0D) fputc(c, tmpf);\<close> (lines 389-390, 441-442) and
  \<open>while (in.get(c) && c != 0x0D) {}\<close> (lines 384-386, 396-397, 446).\<close>

function copy_field :: "istream \<Rightarrow> string \<Rightarrow> istream \<times> string" where
  "copy_field s tmp =
     (case get_char s of
        (None, s1) \<Rightarrow> (s1, tmp)
      | (Some c', s1) \<Rightarrow> if c' \<noteq> CR then copy_field s1 (tmp @ [c']) else (s1, tmp))"
  by pat_completeness auto
termination
  apply (relation "measure (\<lambda>(s, tmp). length (buf s) - pos s)")
   apply simp
  apply (auto dest!: get_char_Some sym [of "(Some _, _)"])
  done

declare copy_field.simps [simp del]

function skip_field :: "istream \<Rightarrow> istream" where
  "skip_field s =
     (case get_char s of
        (None, s1) \<Rightarrow> s1
      | (Some c', s1) \<Rightarrow> if c' \<noteq> CR then skip_field s1 else s1)"
  by pat_completeness auto
termination
  apply (relation "measure (\<lambda>s. length (buf s) - pos s)")
   apply simp
  apply (auto dest!: get_char_Some sym [of "(Some _, _)"])
  done

declare skip_field.simps [simp del]

text \<open>\<open>while (in.get(c)) fputc(c, tmpf);\<close> (lines 403-404 and 447-448).\<close>

function copy_rest :: "istream \<Rightarrow> string \<Rightarrow> istream \<times> string" where
  "copy_rest s tmp =
     (case get_char s of
        (None, s1) \<Rightarrow> (s1, tmp)
      | (Some c', s1) \<Rightarrow> copy_rest s1 (tmp @ [c']))"
  by pat_completeness auto
termination
  apply (relation "measure (\<lambda>(s, tmp). length (buf s) - pos s)")
   apply simp
  apply (auto dest!: get_char_Some sym [of "(Some _, _)"])
  done

declare copy_rest.simps [simp del]

subsection \<open>delete_lbr (lbr.cpp, lines 353-418)\<close>

text \<open>Lines 369-377: with \<open>wipe\<close>, the header is copied with the count one less.\<close>

definition wipe_header :: "istream \<Rightarrow> string \<Rightarrow> istream \<times> string" where
  "wipe_header s tmp =
     (let (c1, s1) = get_put s;
          (count, s2) = get_str 256 (CHR '' '') s1;
          file_count = atoi count;
          (c2, s3) = get_put s2;
          (c3, s4) = get_put s3
      in (s4, tmp @ [c1] @ fputs (to_string (to_int32 (file_count - 1))) @ [c2] @ [c3]))"

text \<open>Lines 383-398: the record of the target is skipped (\<open>wipe\<close>) or written anew
  with type \<open>D\<close> and length 0.\<close>

definition replace_record :: "bool \<Rightarrow> istream \<Rightarrow> string \<Rightarrow> istream \<times> string" where
  "replace_record wipe s tmp =
     (if wipe then (skip_field (skip_field (skip_field s)), tmp)
      else let (s1, tmp1) = copy_field s tmp
           in (skip_field (skip_field s1), tmp1 @ [CR] @ ''D'' @ [CR] @ fputs '' 0 '' @ [CR]))"

text \<open>The result of \<open>delete_lbr\<close>: the value returned, the file system and the text
  printed. \<open>c\<close> is not initialised before the first loop.\<close>

definition delete_lbr ::
  "env \<Rightarrow> filesystem \<Rightarrow> string \<Rightarrow> string \<Rightarrow> bool \<Rightarrow> bool \<Rightarrow> int \<times> filesystem \<times> string" where
  "delete_lbr e fs file target skip_deleted wipe =
     (let (res, len, offset, dir_offset, out0) = find_in_lbr e fs file target 0 0 0 skip_deleted
      in if res \<noteq> 0 then (res, fs, out0 @ ''No deletion occured.'' @ [CHR 0x0A])
         else
           let (signature, s1) = read 3 (ifstream_open fs file);
               tmp0 = fputs signature;
               (s2, tmp1) = (if wipe then wipe_header s1 tmp0 else (s1, tmp0));
               (s3, tmp2, c) = copy_before dir_offset s2 tmp1 (stale_byte e 0);
               tmp3 = tmp2 @ [c];
               (s4, tmp4) = replace_record wipe s3 tmp3;
               (s5, tmp5) = copy_upto offset s4 tmp4;
               s6 = seekg_beg (offset + len) s5;
               (s7, tmp6) = copy_rest s6 tmp5;
               out1 = (if \<not> eofbit s7 then ''Error reading from archive.'' @ [CHR 0x0A] else [])
           in (0, fs(file \<mapsto> tmp6), out0 @ out1))"

subsection \<open>chtype_lbr (lbr.cpp, lines 420-462)\<close>

definition chtype_lbr ::
  "env \<Rightarrow> filesystem \<Rightarrow> string \<Rightarrow> string \<Rightarrow> string \<Rightarrow> bool \<Rightarrow> int \<times> filesystem \<times> string" where
  "chtype_lbr e fs file target new_type skip_deleted =
     (let (res, len, offset, dir_offset, out0) = find_in_lbr e fs file target 0 0 0 skip_deleted
      in if res \<noteq> 0 then (res, fs, out0 @ ''Failed'' @ [CHR 0x0A])
         else
           let (signature, s1) = read 3 (ifstream_open fs file);
               tmp0 = fputs signature;
               (s2, tmp1, c) = copy_before dir_offset s1 tmp0 (stale_byte e 0);
               tmp2 = tmp1 @ [c];
               (s3, tmp3) = copy_field s2 tmp2;
               tmp4 = tmp3 @ [CR] @ fputs (ascii2petscii e new_type) @ [CR];
               s4 = skip_field s3;
               (s5, tmp5) = copy_rest s4 tmp4;
               out1 = (if \<not> eofbit s5 then ''Error reading from archive.'' @ [CHR 0x0A] else [])
           in (0, fs(file \<mapsto> tmp5), out0 @ out1))"


subsection \<open>Notions used to state the properties\<close>

text \<open>The entries \<open>list_lbr\<close> holds in \<open>files\<close> when it prints them (lines 582-621),
  and the line it prints first when verbose (line 598).\<close>

definition listed_entries :: "filesystem \<Rightarrow> string \<Rightarrow> bool \<Rightarrow> FileEntry list" where
  "listed_entries fs file sort_numerical =
     (let (signature, s1) = read 3 (ifstream_open fs file);
          (count, s2) = read_count s1;
          files0 = fst (list_entries (nat (atoi count)) s2)
      in if sort_numerical then std_sort files0 else files0)"

definition list_banner :: "env \<Rightarrow> filesystem \<Rightarrow> string \<Rightarrow> string" where
  "list_banner e fs file =
     (let (signature, s1) = read 3 (ifstream_open fs file);
          (count, s2) = read_count s1
      in if verbose e
         then filename file @ '' '' @ to_string (atoi count) @ '' entries'' @ [CHR 0x0A]
         else [])"

text \<open>What \<open>extract_lbr\<close> has after parsing the directory (lines 204-242): the
  entries, the text printed and the stream, which stands at the first payload byte.\<close>

definition extract_parsed :: "env \<Rightarrow> filesystem \<Rightarrow> string \<Rightarrow> FileEntry list \<times> string \<times> istream" where
  "extract_parsed e fs infile =
     (let (signature, s1) = read 3 (ifstream_open fs infile);
          (count, s2) = read_count s1
      in extract_entries e 0 (nat (atoi count)) s2)"

text \<open>A stream whose position is not past the end of its bytes.\<close>

definition in_range :: "istream \<Rightarrow> bool" where
  "in_range s = (pos s \<le> length (buf s))"

text \<open>Example archives and environments.\<close>

definition verbose_env :: env where
  "verbose_env = default_env\<lparr>verbose := True\<rparr>"

definition bad_archive :: string where
  "bad_archive = ''DWB 3 '' @ [CR]
     @ ''A'' @ [CR] @ ''S'' @ [CR] @ '' 2000000 '' @ [CR]
     @ ''B'' @ [CR] @ ''P'' @ [CR] @ '' -5 '' @ [CR]
     @ ''C'' @ [CR] @ ''S'' @ [CR] @ '' 2 '' @ [CR]
     @ ''ab''"

definition two_file_archive :: string where
  "two_file_archive = ''DWB 2 '' @ [CR]
     @ ''A'' @ [CR] @ ''S'' @ [CR] @ '' 1 '' @ [CR]
     @ ''B'' @ [CR] @ ''S'' @ [CR] @ '' 1 '' @ [CR]
     @ ''ab''"

definition bad_second_archive :: string where
  "bad_second_archive = ''DWB 3 '' @ [CR]
     @ ''A'' @ [CR] @ ''S'' @ [CR] @ '' 1 '' @ [CR]
     @ ''B'' @ [CR] @ ''P'' @ [CR] @ '' 2000000 '' @ [CR]
     @ ''C'' @ [CR] @ ''S'' @ [CR] @ '' 1 '' @ [CR]
     @ ''abc''"

text \<open>An environment in which the memory of an unassigned \<open>bad_length\<close> reads true, and
  an archive whose record after the one with the bad length has an empty name.\<close>

definition stale_env :: env where
  "stale_env = default_env\<lparr>stale_flag := (\<lambda>i. True)\<rparr>"

definition unparsed_archive :: string where
  "unparsed_archive = ''DWB 2 '' @ [CR]
     @ ''B'' @ [CR] @ ''P'' @ [CR] @ '' 2000000 '' @ [CR]
     @ [CR] @ ''S'' @ [CR] @ '' 1 '' @ [CR]
     @ ''ab''"

definition source_files :: filesystem where
  "source_files = [''BB.PRG'' \<mapsto> [], ''ww.txt'' \<mapsto> ''12345678'', ''d/hello.Prg'' \<mapsto> ''abc'']"


subsection \<open>Well-formed archives\<close>

text \<open>
  A directory entry as the specification has it: a name, a one-character type and a
  length. \<open>entry_bytes\<close> and \<open>archive_bytes\<close> are the byte format of the specification
  (section 6): the header \<open>DWB\<close>, space, count, space, CR; per entry the name, CR,
  the type, CR, space, length, space, CR; then the payload region.
\<close>

record dir_entry =
  d_name :: string
  d_type :: char
  d_len :: nat

definition entry_bytes :: "dir_entry \<Rightarrow> string" where
  "entry_bytes d =
     d_name d @ [CR] @ [d_type d] @ [CR] @ '' '' @ dec (int (d_len d)) @ '' '' @ [CR]"

definition header_bytes :: "nat \<Rightarrow> string" where
  "header_bytes n = ''DWB'' @ '' '' @ dec (int n) @ '' '' @ [CR]"

definition directory_bytes :: "dir_entry list \<Rightarrow> string" where
  "directory_bytes es = concat (map entry_bytes es)"

definition archive_bytes :: "dir_entry list \<Rightarrow> string \<Rightarrow> string" where
  "archive_bytes es payload = header_bytes (length es) @ directory_bytes es @ payload"

text \<open>An entry the reader parses back: the name is not empty, fits the 256-byte
  array and has no CR and no NUL; the type is neither; the length is an
  \<open>unsigned int\<close>. A sane entry declares at most 1 MiB.\<close>

definition parsable_entry :: "dir_entry \<Rightarrow> bool" where
  "parsable_entry d =
     (d_name d \<noteq> [] \<and> length (d_name d) \<le> 255 \<and> CR \<notin> set (d_name d) \<and> NUL \<notin> set (d_name d)
      \<and> d_type d \<noteq> CR \<and> d_type d \<noteq> NUL \<and> int (d_len d) < 2 ^ 32)"

definition sane_entry :: "dir_entry \<Rightarrow> bool" where
  "sane_entry d = (parsable_entry d \<and> int (d_len d) \<le> MAX_SANE_LENGTH)"

text \<open>A well-formed archive: sane entries, a count that fits an \<open>int\<close>, and a
  payload region as long as the declared lengths together.\<close>

definition payload_size :: "dir_entry list \<Rightarrow> nat" where
  "payload_size es = sum_list (map d_len es)"

definition wf_archive :: "dir_entry list \<Rightarrow> string \<Rightarrow> bool" where
  "wf_archive es payload =
     (list_all sane_entry es \<and> int (length es) < 2 ^ 31 \<and> length payload = payload_size es)"

text \<open>The entry \<open>find_in_lbr\<close> accepts for a target: the decoded name is the target,
  and the type is not \<open>D\<close> when deleted entries are skipped.\<close>

definition accepts :: "env \<Rightarrow> string \<Rightarrow> bool \<Rightarrow> dir_entry \<Rightarrow> bool" where
  "accepts e target skip_deleted d =
     (petscii2ascii e (d_name d) = target \<and> (d_type d \<noteq> CHR ''D'' \<or> \<not> skip_deleted))"

text \<open>The entry that \<open>list_lbr\<close> holds for a directory entry, and the type the
  specification derives for a source file from its name and size.\<close>

definition entry_file :: "dir_entry \<Rightarrow> FileEntry" where
  "entry_file d = \<lparr>name = d_name d, path = [], length_u = int (d_len d), type_s = [d_type d],
                    bad_length = False\<rparr>"

definition derived_type :: "string \<Rightarrow> nat \<Rightarrow> char" where
  "derived_type nm sz =
     (if sz = 0 then CHR ''D''
      else if map tolower (extension nm) = ''.prg'' then CHR ''P''
      else if map tolower (extension nm) = ''.usr'' then CHR ''U''
      else if map tolower (extension nm) = ''.rel'' then CHR ''R''
      else CHR ''S'')"

text \<open>The directory entry that \<open>build_lbr\<close> writes for the input path \<open>p\<close>.\<close>

definition built_entry :: "env \<Rightarrow> filesystem \<Rightarrow> string \<Rightarrow> dir_entry" where
  "built_entry e fs p =
     \<lparr>d_name = ascii2petscii e (filename p),
      d_type = derived_type (filename p) (length (the (fs p))),
      d_len = length (the (fs p))\<rparr>"

text \<open>The stream \<open>n\<close> bytes further on.\<close>

definition advance :: "nat \<Rightarrow> istream \<Rightarrow> istream" where
  "advance n s = s\<lparr>pos := pos s + n\<rparr>"


text \<open>The entries \<open>find_in_lbr\<close> scans before the one it accepts.\<close>

definition scanned :: "env \<Rightarrow> string \<Rightarrow> bool \<Rightarrow> dir_entry list \<Rightarrow> dir_entry list" where
  "scanned e target skip_deleted es = takeWhile (\<lambda>d. \<not> accepts e target skip_deleted d) es"

text \<open>A directory with a deleted entry, and a second entry of the same name.\<close>

definition dup_entries :: "dir_entry list" where
  "dup_entries =
     [\<lparr>d_name = ''A'', d_type = CHR ''D'', d_len = 0\<rparr>,
      \<lparr>d_name = ''B'', d_type = CHR ''S'', d_len = 2\<rparr>,
      \<lparr>d_name = ''A'', d_type = CHR ''P'', d_len = 1\<rparr>,
      \<lparr>d_name = ''C'', d_type = CHR ''S'', d_len = 12\<rparr>]"

definition dup_archive :: string where
  "dup_archive = archive_bytes dup_entries ''bbaCCCCCCCCCCCC''"

text \<open>The entries after the one \<open>find_in_lbr\<close> accepts, and the payload region without
  the bytes of that entry \<open>d\<close>.\<close>

definition remainder :: "env \<Rightarrow> string \<Rightarrow> bool \<Rightarrow> dir_entry list \<Rightarrow> dir_entry list" where
  "remainder e target skip_deleted es = drop (Suc (length (scanned e target skip_deleted es))) es"

definition kept_payload ::
  "env \<Rightarrow> string \<Rightarrow> bool \<Rightarrow> dir_entry list \<Rightarrow> dir_entry \<Rightarrow> string \<Rightarrow> string" where
  "kept_payload e target skip_deleted es d payload =
     take (payload_size (scanned e target skip_deleted es)) payload
     @ drop (payload_size (scanned e target skip_deleted es) + d_len d) payload"

text \<open>The record of a deleted entry that keeps its place.\<close>

definition tombstone :: "dir_entry \<Rightarrow> dir_entry" where
  "tombstone d = \<lparr>d_name = d_name d, d_type = CHR ''D'', d_len = 0\<rparr>"

text \<open>A directory of ten entries of one byte each.\<close>

definition ten_entries :: "dir_entry list" where
  "ten_entries = map (\<lambda>c. \<lparr>d_name = [c], d_type = CHR ''S'', d_len = 1\<rparr>) ''ABCDEFGHIJ''"

definition ten_archive :: string where
  "ten_archive = archive_bytes ten_entries ''abcdefghij''"

subsection \<open>Archives whose length fields hold any integer\<close>

text \<open>
  A directory record as it is written in an archive that need not be well formed: the
  length field holds the decimal text of an integer, which may be negative or large.
  \<open>raw_archive\<close> is the archive of such records.
\<close>

record raw_entry =
  r_name :: string
  r_type :: char
  r_len :: int

definition raw_bytes :: "raw_entry \<Rightarrow> string" where
  "raw_bytes r =
     r_name r @ [CR] @ [r_type r] @ [CR] @ '' '' @ to_string (r_len r) @ '' '' @ [CR]"

definition raw_archive :: "raw_entry list \<Rightarrow> string \<Rightarrow> string" where
  "raw_archive rs payload = header_bytes (length rs) @ concat (map raw_bytes rs) @ payload"

text \<open>A record the reader parses back, with a length that fits an \<open>int\<close>.\<close>

definition readable :: "raw_entry \<Rightarrow> bool" where
  "readable r =
     (r_name r \<noteq> [] \<and> length (r_name r) \<le> 255 \<and> CR \<notin> set (r_name r) \<and> NUL \<notin> set (r_name r)
      \<and> r_type r \<noteq> CR \<and> r_type r \<noteq> NUL \<and> - (2 ^ 31) \<le> r_len r \<and> r_len r < 2 ^ 31)"

text \<open>
  The line of the listing for a record: nothing for a \<open>D\<close> record that is skipped
  (\<open>[deleted]\<close> when verbose), else \<open>name (type) length\<close> with name and type decoded
  and the length as an unsigned 32-bit decimal, followed by \<open>(bad)\<close> when the run is
  verbose and the length written is negative or above 1 MiB.
\<close>

definition listed_line :: "env \<Rightarrow> bool \<Rightarrow> raw_entry \<Rightarrow> string" where
  "listed_line e skip_deleted r =
     (if r_type r = CHR ''D'' \<and> skip_deleted then
        (if verbose e then ''[deleted]'' @ [CHR 0x0A] else [])
      else petscii2ascii e (r_name r) @ '' ('' @ petscii2ascii e [r_type r] @ '') ''
           @ dec (r_len r mod 2 ^ 32)
           @ (if verbose e \<and> (r_len r < 0 \<or> r_len r > 1048576) then '' (bad)'' else [])
           @ [CHR 0x0A])"

definition bad_entries :: "raw_entry list" where
  "bad_entries =
     [\<lparr>r_name = ''A'', r_type = CHR ''S'', r_len = 2000000\<rparr>,
      \<lparr>r_name = ''B'', r_type = CHR ''P'', r_len = - 5\<rparr>,
      \<lparr>r_name = ''C'', r_type = CHR ''S'', r_len = 2\<rparr>]"

section \<open>Properties of the text codec\<close>

lemma of_char_of_int: "0 \<le> v \<Longrightarrow> v < 256 \<Longrightarrow> of_char (char_of (v::int)) = v"
  by (simp add: of_char_of)

lemma cval_small: "(of_char c :: int) < 128 \<Longrightarrow> cval e c = of_char c"
  by (simp add: cval_def)

lemma enc_stable: "stable_char c \<Longrightarrow> ascii2petscii_char e c = c"
  by (auto simp: stable_char_def ascii2petscii_char_def cval_small Let_def)

lemma dec_stable: "stable_char c \<Longrightarrow> petscii2ascii_char e c = c"
  by (auto simp: stable_char_def petscii2ascii_char_def cval_small Let_def)

lemma enc_lower: "is_lower c \<Longrightarrow> ascii2petscii_char e c = char_of ((of_char c :: int) - 0x20)"
  by (auto simp: is_lower_def ascii2petscii_char_def cval_small Let_def)

lemma lower_stable: "is_lower c \<Longrightarrow> stable_char (char_of ((of_char c :: int) - 0x20))"
  by (simp add: is_lower_def stable_char_def of_char_of_int)

lemma punct_rt: "special_punct c \<Longrightarrow> petscii2ascii_char e (ascii2petscii_char e c) = folded c"
  unfolding special_punct_def
  by (auto simp: petscii2ascii_char_def ascii2petscii_char_def cval_def folded_def is_lower_def)

lemma upper_digit_stable: "is_upper c \<or> is_digit c \<Longrightarrow> stable_char c"
  by (auto simp: is_upper_def is_digit_def stable_char_def)

lemma stable_folded: "is_upper c \<or> is_digit c \<Longrightarrow> folded c = c"
  by (auto simp: is_upper_def is_digit_def folded_def is_lower_def)

lemma rt_claimed:
  assumes "claimed_char c"
  shows "petscii2ascii_char e (ascii2petscii_char e c) = folded c"
proof -
  from assms consider (ud) "is_upper c \<or> is_digit c" | (lo) "is_lower c" | (sp) "special_punct c"
    unfolding claimed_char_def by blast
  then show ?thesis
  proof cases
    case ud
    then show ?thesis
      by (simp only: stable_folded enc_stable dec_stable upper_digit_stable)
  next
    case lo
    then show ?thesis
      by (simp only: enc_lower dec_stable lower_stable folded_def if_True)
  next
    case sp
    then show ?thesis by (rule punct_rt)
  qed
qed

lemma map_id_on: "(\<And>x. x \<in> set xs \<Longrightarrow> f x = x) \<Longrightarrow> map f xs = xs"
  by (induction xs) auto

text \<open>
  C2 as stated: for every text of letters, digits and the special-cased punctuation,
  decoding the encoded text gives the text back. It fails for a lower-case letter:
  \<open>a\<close> is encoded as \<open>A\<close>, which decodes as \<open>A\<close>.
\<close>

theorem C2_roundtrip_counterexample:
  "claimed_char (CHR ''a'') \<and>
   petscii2ascii default_env (ascii2petscii default_env ''a'') \<noteq> ''a''"
  by (simp add: petscii2ascii_def ascii2petscii_def default_env_def ascii2petscii_char_def
      petscii2ascii_char_def cval_def char_of_def claimed_char_def is_lower_def)

text \<open>
  C2, amended: decoding the encoded text gives the text back for every text of
  upper-case letters, digits and the other bytes 0x20..0x5B and 0x5D (with conversion on
  or off, \<open>char\<close> signed or not). With conversion on, a text of letters, digits and the
  special-cased punctuation comes back folded: lower-case letters as upper case,
  backslash and pipe as slash, underscore as space, backtick as apostrophe, braces as
  parentheses.
\<close>

theorem C2_roundtrip_amended:
  "((\<forall>c\<in>set t. stable_char c) \<longrightarrow> petscii2ascii e (ascii2petscii e t) = t) \<and>
   ((\<forall>c\<in>set t. is_upper c \<or> is_digit c) \<longrightarrow> petscii2ascii e (ascii2petscii e t) = t) \<and>
   ((\<forall>c\<in>set t. claimed_char c) \<and> convert_petscii e \<longrightarrow>
      petscii2ascii e (ascii2petscii e t) = map folded t)"
proof (intro conjI impI)
  assume "\<forall>c\<in>set t. stable_char c"
  then show "petscii2ascii e (ascii2petscii e t) = t"
    by (simp add: petscii2ascii_def ascii2petscii_def enc_stable dec_stable map_id_on)
next
  assume "\<forall>c\<in>set t. is_upper c \<or> is_digit c"
  then have "\<forall>c\<in>set t. stable_char c"
    using upper_digit_stable by blast
  then show "petscii2ascii e (ascii2petscii e t) = t"
    by (simp add: petscii2ascii_def ascii2petscii_def enc_stable dec_stable map_id_on)
next
  assume "(\<forall>c\<in>set t. claimed_char c) \<and> convert_petscii e"
  then show "petscii2ascii e (ascii2petscii e t) = map folded t"
    by (simp add: petscii2ascii_def ascii2petscii_def rt_claimed)
qed

theorem C2_roundtrip_witness:
  "petscii2ascii default_env (ascii2petscii default_env ''B2'') = ''B2'' \<and>
   petscii2ascii default_env (ascii2petscii default_env ''a_{'') = ''A (''"
proof -
  have s: "\<forall>c\<in>set ''B2''. stable_char c"
    by (simp add: stable_char_def)
  have c: "(\<forall>c\<in>set ''a_{''. claimed_char c) \<and> convert_petscii default_env"
    by (simp add: claimed_char_def is_lower_def special_punct_def default_env_def)
  have f: "map folded ''a_{'' = ''A (''"
    by (simp add: folded_def is_lower_def char_of_def)
  from C2_roundtrip_amended [of "''B2''" default_env] s
  have 1: "petscii2ascii default_env (ascii2petscii default_env ''B2'') = ''B2''"
    by blast
  from C2_roundtrip_amended [of "''a_{''" default_env] c
  have 2: "petscii2ascii default_env (ascii2petscii default_env ''a_{'') = map folded ''a_{''"
    by blast
  from 1 2 f show ?thesis by simp
qed

section \<open>Conversions between integer types\<close>

lemma mod_shift_down: "m \<le> a \<Longrightarrow> a < 2 * m \<Longrightarrow> (a::int) mod m = a - m"
  using mod_pos_pos_trivial [of "a - m" m] by simp

lemma mod_shift_up: "- m \<le> a \<Longrightarrow> a < 0 \<Longrightarrow> (a::int) mod m = a + m"
  using mod_pos_pos_trivial [of "a + m" m] by simp

lemma to_int32_range: "- (2 ^ 31) \<le> to_int32 x \<and> to_int32 x < 2 ^ 31"
  unfolding to_int32_def by (simp add: algebra_simps)

lemma to_uint32_nonneg: "0 \<le> l \<Longrightarrow> l < 2 ^ 32 \<Longrightarrow> to_uint32 l = l"
  unfolding to_uint32_def by simp

lemma to_uint32_neg: "- (2 ^ 31) \<le> l \<Longrightarrow> l < 0 \<Longrightarrow> to_uint32 l = l + 2 ^ 32"
  unfolding to_uint32_def using mod_shift_up [of "2 ^ 32" l] by simp

lemma to_uint32_range: "0 \<le> to_uint32 x \<and> to_uint32 x < 2 ^ 32"
  unfolding to_uint32_def by simp

lemma to_int32_small: "- (2 ^ 31) \<le> x \<Longrightarrow> x < 2 ^ 31 \<Longrightarrow> to_int32 x = x"
  unfolding to_int32_def by simp

lemma to_int32_to_uint32:
  assumes "- (2 ^ 31) \<le> l" "l < 2 ^ 31"
  shows "to_int32 (to_uint32 l) = l"
proof (cases "0 \<le> l")
  case True
  with assms show ?thesis by (simp add: to_uint32_nonneg to_int32_small)
next
  case False
  with assms have u: "to_uint32 l = l + 2 ^ 32" by (simp add: to_uint32_neg)
  from assms False show ?thesis
    unfolding u to_int32_def using mod_shift_down [of "2 ^ 32" "l + 2 ^ 32 + 2 ^ 31"] by simp
qed

lemma uint_gt_iff:
  assumes "- (2 ^ 31) \<le> l" "l < 2 ^ 31"
  shows "(to_uint32 l > MAX_SANE_LENGTH) = (l < 0 \<or> l > MAX_SANE_LENGTH)"
proof (cases "0 \<le> l")
  case True
  with assms show ?thesis by (simp add: to_uint32_nonneg)
next
  case False
  with assms show ?thesis by (simp add: to_uint32_neg MAX_SANE_LENGTH_def)
qed

lemma atoi_range: "- (2 ^ 31) \<le> atoi x \<and> atoi x < 2 ^ 31"
  unfolding atoi_def by (rule to_int32_range)


section \<open>Decimal numbers\<close>

lemma is_digit_char_of: "0 \<le> n \<Longrightarrow> n < 10 \<Longrightarrow> is_digit (char_of (48 + n :: int))"
  by (simp add: is_digit_def of_char_of_int)

lemma digit_val_char_of: "0 \<le> n \<Longrightarrow> n < 10 \<Longrightarrow> digit_val (char_of (48 + n :: int)) = n"
  by (simp add: digit_val_def of_char_of_int)

lemma dec_digits: "0 \<le> n \<Longrightarrow> \<forall>c\<in>set (dec n). is_digit c"
proof (induction n rule: dec.induct)
  case (1 n)
  show ?case
  proof (cases "n < 10")
    case True
    with "1.prems" show ?thesis by (simp add: dec.simps [of n] is_digit_char_of)
  next
    case False
    then have "0 \<le> n div 10" by simp
    with "1.IH" False have "\<forall>c\<in>set (dec (n div 10)). is_digit c" by simp
    moreover have "is_digit (char_of (48 + n mod 10))"
      by (rule is_digit_char_of) simp_all
    ultimately show ?thesis using False by (simp add: dec.simps [of n])
  qed
qed

lemma dec_nonempty: "dec n \<noteq> []"
  by (cases "n < 10") (simp_all add: dec.simps [of n])

lemma digits_value_dec:
  "0 \<le> n \<Longrightarrow> digits_value acc (dec n @ r) = digits_value (acc * 10 ^ length (dec n) + n) r"
proof (induction n arbitrary: acc r rule: dec.induct)
  case (1 n)
  show ?case
  proof (cases "n < 10")
    case True
    with "1.prems" show ?thesis
      by (simp add: dec.simps [of n] is_digit_char_of digit_val_char_of)
  next
    case False
    have d: "is_digit (char_of (48 + n mod 10))" by (rule is_digit_char_of) simp_all
    have v: "digit_val (char_of (48 + n mod 10)) = n mod 10" by (rule digit_val_char_of) simp_all
    from False have nn: "0 \<le> n div 10" by simp
    have "digits_value acc (dec n @ r)
        = digits_value acc (dec (n div 10) @ (char_of (48 + n mod 10) # r))"
      using False by (simp add: dec.simps [of n])
    also have "\<dots> = digits_value (acc * 10 ^ length (dec (n div 10)) + n div 10)
                        (char_of (48 + n mod 10) # r)"
      using "1.IH" [OF False nn] by simp
    also have "\<dots> = digits_value ((acc * 10 ^ length (dec (n div 10)) + n div 10) * 10 + n mod 10) r"
      by (simp add: d v)
    also have "(acc * 10 ^ length (dec (n div 10)) + n div 10) * 10 + n mod 10
         = acc * 10 ^ length (dec n) + n"
      using False by (simp add: dec.simps [of n] algebra_simps)
    finally show ?thesis .
  qed
qed

lemma digits_value_dec0: "0 \<le> n \<Longrightarrow> digits_value 0 (dec n) = n"
  using digits_value_dec [of n 0 "[]"] by simp

lemma is_digit_not_space: "is_digit c \<Longrightarrow> \<not> is_space c"
  by (auto simp: is_digit_def is_space_def)

lemma is_digit_not_special:
  "is_digit c \<Longrightarrow> c \<noteq> CHR '' '' \<and> c \<noteq> CR \<and> c \<noteq> NUL \<and> c \<noteq> CHR ''-'' \<and> c \<noteq> CHR ''+''"
  by (auto simp: is_digit_def CR_def NUL_def)

lemma strtol_dec: "0 \<le> n \<Longrightarrow> n < 2 ^ 63 \<Longrightarrow> strtol (dec n) = n"
proof -
  assume n: "0 \<le> n" "n < 2 ^ 63"
  obtain c r where cr: "dec n = c # r"
    using dec_nonempty [of n] by (cases "dec n") auto
  with dec_digits [OF n(1)] have dc: "is_digit c" by simp
  then have ns: "\<not> is_space c" by (rule is_digit_not_space)
  from dc have sp: "c \<noteq> CHR ''-''" "c \<noteq> CHR ''+''" using is_digit_not_special by blast+
  have dw: "dropWhile is_space (dec n) = c # r" using cr ns by simp
  have "digits_value 0 (c # r) = n" using digits_value_dec0 [OF n(1)] cr by simp
  with n show ?thesis
    unfolding strtol_def dw Let_def using sp by simp
qed

lemma atoi_dec: "0 \<le> n \<Longrightarrow> n < 2 ^ 31 \<Longrightarrow> atoi (dec n) = n"
  by (simp add: atoi_def strtol_dec to_int32_small)

lemma to_uint32_to_int32: "to_uint32 (to_int32 x) = to_uint32 x"
proof -
  have "(x + 2 ^ 31) mod 2 ^ 32 - 2 ^ 31 = x + 2 ^ 31 - 2 ^ 32 * ((x + 2 ^ 31) div 2 ^ 32) - 2 ^ 31"
    by (simp add: minus_mult_div_eq_mod)
  then have "to_int32 x = x + 2 ^ 32 * (- ((x + 2 ^ 31) div 2 ^ 32))"
    by (simp add: to_int32_def)
  then show ?thesis
    unfolding to_uint32_def by (metis mod_mult_self2)
qed

lemma uint_atoi_dec: "0 \<le> n \<Longrightarrow> n < 2 ^ 32 \<Longrightarrow> to_uint32 (atoi (dec n)) = n"
  by (simp add: atoi_def strtol_dec to_uint32_to_int32 to_uint32_nonneg)

lemma length_dec: "0 \<le> n \<Longrightarrow> n < 10 ^ k \<Longrightarrow> length (dec n) \<le> max 1 k"
proof (induction n arbitrary: k rule: dec.induct)
  case (1 n)
  show ?case
  proof (cases "n < 10")
    case True
    then show ?thesis by (simp add: dec.simps [of n])
  next
    case False
    with "1.prems" obtain k' where k: "k = Suc k'" by (cases k) auto
    with "1.prems" have "n div 10 < 10 ^ k'" by simp
    moreover from False have "0 \<le> n div 10" by simp
    ultimately have "length (dec (n div 10)) \<le> max 1 k'" using "1.IH" False by blast
    moreover from False "1.prems" k have "k' \<ge> 1" by (cases k') auto
    ultimately show ?thesis using False k by (simp add: dec.simps [of n])
  qed
qed

lemma length_dec_small: "0 \<le> n \<Longrightarrow> n < 2 ^ 32 \<Longrightarrow> length (dec n) \<le> 255"
proof -
  assume n: "0 \<le> n" "n < 2 ^ 32"
  then have "n < 10 ^ 10" by simp
  from length_dec [OF n(1) this] show ?thesis by simp
qed


section \<open>The sort\<close>

lemma set_sort_insert: "set (sort_insert x ys) = insert x (set ys)"
  by (induction ys) auto


lemma set_foldr_sort_insert: "set (foldr sort_insert xs []) = set xs"
  by (induction xs) (auto simp: set_sort_insert)


lemma set_std_sort: "set (std_sort files) = set files"
  by (simp add: std_sort_def set_foldr_sort_insert)


section \<open>Building\<close>








section \<open>Reading a well-formed directory\<close>

lemma good_advance [simp]: "good (advance n s) = good s"
  by (simp add: good_def advance_def)

lemma rest_advance [simp]: "rest (advance n s) = drop n (rest s)"
  by (simp add: rest_def advance_def add.commute)

lemma advance_advance: "advance n (advance m s) = advance (m + n) s"
  by (simp add: advance_def add.assoc)

lemma pos_advance [simp]: "pos (advance n s) = pos s + n"
  by (simp add: advance_def)

lemma buf_advance [simp]: "buf (advance n s) = buf s"
  by (simp add: advance_def)

lemma advance_0 [simp]: "advance 0 s = s"
  by (simp add: advance_def)

lemma c_str_id: "NUL \<notin> set x \<Longrightarrow> c_str x = x"
  by (auto simp: c_str_def takeWhile_eq_all_conv)

lemma fputs_id: "NUL \<notin> set x \<Longrightarrow> fputs x = x"
  by (simp add: fputs_def c_str_id)

lemma get_str_field:
  assumes "good s" "rest s = x @ d # r" "d \<notin> set x" "x \<noteq> []" "length x < n" "NUL \<notin> set x"
  shows "get_str n d s = (x, advance (length x) s)"
proof -
  have tw: "takeWhile (\<lambda>c. c \<noteq> d) (x @ d # r) = x"
    using assms(3) by (subst takeWhile_append2) auto
  have tk: "take (n - 1) x = x" using assms(5) by simp
  have n1: "\<not> n \<le> Suc 0" using assms(4,5) by (cases x) auto
  show ?thesis
    using assms n1 by (simp add: get_str_def Let_def tw tk c_str_id advance_def)
qed

lemma ignore_one:
  assumes "good s" "rest s = c # r"
  shows "ignore (Suc 0) s = advance 1 s"
  using assms by (simp add: ignore_def Let_def advance_def)

lemma ignore_within:
  assumes "good s" "n \<le> length (rest s)"
  shows "ignore n s = advance n s"
  using assms by (simp add: ignore_def Let_def advance_def min_def)

lemma read_exact:
  assumes "good s" "rest s = x @ r" "length x = n"
  shows "read n s = (x, advance n s)"
  using assms by (auto simp: read_def Let_def advance_def)

lemma get_char_next:
  assumes "good s" "rest s = c # r"
  shows "get_char s = (Some c, advance 1 s)"
  using assms by (simp add: get_char_def advance_def)

lemma get_char_end:
  assumes "good s" "rest s = []"
  shows "get_char s = (None, s\<lparr>eofbit := True, failbit := True\<rparr>)"
  using assms by (simp add: get_char_def)

lemma get_put_next:
  assumes "good s" "rest s = c # r"
  shows "get_put s = (c, advance 1 s)"
  using assms by (simp add: get_put_def get_char_next)

lemma tellg_good: "good s \<Longrightarrow> tellg s = (int (pos s), s)"
  by (simp add: tellg_def)

lemma parsable_dec:
  assumes "int n < 2 ^ 32"
  shows "dec (int n) \<noteq> [] \<and> CHR '' '' \<notin> set (dec (int n)) \<and> NUL \<notin> set (dec (int n))
     \<and> length (dec (int n)) < 256"
proof -
  have d: "\<forall>c\<in>set (dec (int n)). is_digit c" by (rule dec_digits) simp
  have "length (dec (int n)) \<le> 255" using assms by (intro length_dec_small) simp_all
  with d dec_nonempty [of "int n"] is_digit_not_special show ?thesis by fastforce
qed

lemma read_entry_bytes:
  assumes g: "good s" and r: "rest s = entry_bytes d @ r" and p: "parsable_entry d"
  shows "read_entry s = ((d_name d, [d_type d], dec (int (d_len d))), advance (length (entry_bytes d)) s)"
proof -
  let ?nm = "d_name d" and ?ln = "dec (int (d_len d))"
  from p have nm: "?nm \<noteq> []" "length ?nm < 256" "CR \<notin> set ?nm" "NUL \<notin> set ?nm"
    and ty: "d_type d \<noteq> CR" "d_type d \<noteq> NUL" and ln: "int (d_len d) < 2 ^ 32"
    by (simp_all add: parsable_entry_def)
  from parsable_dec [OF ln] have dl: "?ln \<noteq> []" "CHR '' '' \<notin> set ?ln" "NUL \<notin> set ?ln" "length ?ln < 256"
    by simp_all
  have r0: "rest s = ?nm @ CR # ([d_type d] @ CR # CHR '' '' # ?ln @ CHR '' '' # CR # r)"
    using r by (simp add: entry_bytes_def)
  have 1: "get_str 256 CR s = (?nm, advance (length ?nm) s)"
    using g r0 nm by (intro get_str_field) simp_all
  let ?s1 = "advance (length ?nm) s"
  have g1: "good ?s1" and r1: "rest ?s1 = CR # ([d_type d] @ CR # CHR '' '' # ?ln @ CHR '' '' # CR # r)"
    using g r0 by simp_all
  have 2: "ignore 1 ?s1 = advance 1 ?s1" using g1 r1 by (simp add: ignore_one)
  let ?s2 = "advance 1 ?s1"
  have g2: "good ?s2" and r2: "rest ?s2 = [d_type d] @ CR # (CHR '' '' # ?ln @ CHR '' '' # CR # r)"
    using g1 r1 by simp_all
  have 3: "get_str 256 CR ?s2 = ([d_type d], advance (length [d_type d]) ?s2)"
    using g2 r2 ty by (intro get_str_field) simp_all
  let ?s3 = "advance 1 ?s2"
  have g3: "good ?s3" and r3: "rest ?s3 = CR # (CHR '' '' # ?ln @ CHR '' '' # CR # r)"
    using g2 r2 by simp_all
  have 4: "ignore 1 ?s3 = advance 1 ?s3" using g3 r3 by (simp add: ignore_one)
  let ?s4 = "advance 1 ?s3"
  have g4: "good ?s4" and r4: "rest ?s4 = CHR '' '' # (?ln @ CHR '' '' # CR # r)"
    using g3 r3 by simp_all
  have 5: "ignore 1 ?s4 = advance 1 ?s4" using g4 r4 by (simp add: ignore_one)
  let ?s5 = "advance 1 ?s4"
  have g5: "good ?s5" and r5: "rest ?s5 = ?ln @ CHR '' '' # (CR # r)"
    using g4 r4 by simp_all
  have 6: "get_str 256 (CHR '' '') ?s5 = (?ln, advance (length ?ln) ?s5)"
    using g5 r5 dl by (intro get_str_field) simp_all
  let ?s6 = "advance (length ?ln) ?s5"
  have g6: "good ?s6" and r6: "rest ?s6 = CHR '' '' # (CR # r)"
    using g5 r5 by simp_all
  have 7: "ignore 1 ?s6 = advance 1 ?s6" using g6 r6 by (simp add: ignore_one)
  let ?s7 = "advance 1 ?s6"
  have g7: "good ?s7" and r7: "rest ?s7 = CR # r"
    using g6 r6 by simp_all
  have 8: "ignore 1 ?s7 = advance 1 ?s7" using g7 r7 by (simp add: ignore_one)
  have fin: "advance 1 ?s7 = advance (length (entry_bytes d)) s"
    by (simp add: entry_bytes_def advance_advance)
  have "read_entry s = ((?nm, [d_type d], ?ln), advance 1 ?s7)"
    unfolding read_entry_def
    using 1 2 3 4 5 6 7 8
    by (simp add: Let_def)
  with fin show ?thesis by simp
qed

lemma read_count_bytes:
  assumes g: "good s" and r: "rest s = CHR '' '' # dec (int n) @ CHR '' '' # CR # r" and n: "int n < 2 ^ 32"
  shows "read_count s = (dec (int n), advance (length (dec (int n)) + 3) s)"
proof -
  let ?ln = "dec (int n)"
  from parsable_dec [OF n] have dl: "?ln \<noteq> []" "CHR '' '' \<notin> set ?ln" "NUL \<notin> set ?ln" "length ?ln < 256"
    by simp_all
  have 1: "ignore 1 s = advance 1 s" using g r by (simp add: ignore_one)
  let ?s1 = "advance 1 s"
  have g1: "good ?s1" and r1: "rest ?s1 = ?ln @ CHR '' '' # (CR # r)"
    using g r by simp_all
  have 2: "get_str 256 (CHR '' '') ?s1 = (?ln, advance (length ?ln) ?s1)"
    using g1 r1 dl by (intro get_str_field) simp_all
  let ?s2 = "advance (length ?ln) ?s1"
  have g2: "good ?s2" and r2: "rest ?s2 = CHR '' '' # (CR # r)"
    using g1 r1 by simp_all
  have 3: "ignore 1 ?s2 = advance 1 ?s2" using g2 r2 by (simp add: ignore_one)
  let ?s3 = "advance 1 ?s2"
  have g3: "good ?s3" and r3: "rest ?s3 = CR # r"
    using g2 r2 by simp_all
  have 4: "ignore 1 ?s3 = advance 1 ?s3" using g3 r3 by (simp add: ignore_one)
  have fin: "advance 1 ?s3 = advance (length ?ln + 3) s"
    by (simp add: advance_advance numeral_3_eq_3)
  have "read_count s = (?ln, advance 1 ?s3)"
    unfolding read_count_def using 1 2 3 4
    by (simp add: Let_def)
  with fin show ?thesis by simp
qed


section \<open>Extraction\<close>

lemma in_range_open: "in_range (ifstream_open fs p)"
  by (simp add: in_range_def ifstream_open_def split: option.splits)

lemma in_range_read: "in_range s \<Longrightarrow> in_range (snd (read n s))"
  by (auto simp: in_range_def read_def rest_def Let_def)

lemma in_range_read_buffer: "in_range s \<Longrightarrow> in_range (snd (read_buffer e n s))"
  using in_range_read [of s n] by (simp add: read_buffer_def split_def Let_def)

lemma in_range_ignore: "in_range s \<Longrightarrow> in_range (ignore n s)"
  by (auto simp: in_range_def ignore_def rest_def Let_def)

lemma length_take_takeWhile: "length (take n (takeWhile P xs)) \<le> length xs"
  using length_takeWhile_le [of P xs] by simp

lemma in_range_get_str: "in_range s \<Longrightarrow> in_range (snd (get_str n d s))"
proof -
  assume a: "in_range s"
  have "length (take (n - 1) (takeWhile (\<lambda>c. c \<noteq> d) (drop (pos s) (buf s)))) \<le> length (buf s) - pos s"
    using length_take_takeWhile [of "n - 1" "\<lambda>c. c \<noteq> d" "drop (pos s) (buf s)"] by simp
  with a show ?thesis
    by (auto simp: in_range_def get_str_def rest_def Let_def)
qed

lemma in_range_read_count: "in_range s \<Longrightarrow> in_range (snd (read_count s))"
  by (simp add: read_count_def split_def Let_def in_range_ignore in_range_get_str)

lemma in_range_read_entry: "in_range s \<Longrightarrow> in_range (snd (read_entry s))"
  by (simp add: read_entry_def split_def Let_def in_range_ignore in_range_get_str)

lemma in_range_extract_entries:
  "in_range s \<Longrightarrow> in_range (snd (snd (extract_entries e i n s)))"
proof (induction n arbitrary: i s)
  case 0
  then show ?case by simp
next
  case (Suc n)
  from Suc.prems have "in_range (snd (read_entry s))" by (rule in_range_read_entry)
  then have "in_range (snd (snd (extract_entries e (Suc i) n (snd (read_entry s)))))"
    by (rule Suc.IH)
  then show ?case by (simp add: split_def Let_def)
qed

lemma extract_files_pre:
  assumes "\<forall>g\<in>set pre. \<not> bad_length g"
  shows "\<exists>s1 fs1. extract_files e dest targets skip addext pre s fs = Inr (s1, fs1)
           \<and> (in_range s \<longrightarrow> in_range s1)
           \<and> (\<forall>post. extract_files e dest targets skip addext (pre @ post) s fs
                 = extract_files e dest targets skip addext post s1 fs1)"
  using assms
proof (induction pre arbitrary: s fs)
  case Nil
  then show ?case by simp
next
  case (Cons f pre)
  then have nb: "\<not> bad_length f" and rest: "\<forall>g\<in>set pre. \<not> bad_length g" by simp_all
  show ?case
  proof (cases "length_u f = 0")
    case True
    with Cons.IH [OF rest, of s fs] nb show ?thesis by simp
  next
    case False
    show ?thesis
    proof (cases "type_s f = ''D'' \<and> skip")
      case True
      with Cons.IH [OF rest, of "ignore (nat (length_u f)) s" fs] nb False
        in_range_ignore [of s "nat (length_u f)"]
      show ?thesis by auto
    next
      case nd: False
      define s1 where "s1 = (if targets \<noteq> [] \<and> petscii2ascii e (name f) \<notin> set targets
                              then ignore (nat (length_u f)) s else s)"
      define rb where "rb = read_buffer e (nat (length_u f)) s1"
      define fp where "fp = path_append dest (petscii2ascii e (name f)
                         @ (if addext then type_extension (type_s f) else []))"
      have step: "extract_files e dest targets skip addext ((f # pre) @ post) s fs
           = extract_files e dest targets skip addext (pre @ post) (snd rb) (fs(fp \<mapsto> fst rb))" for post
        using nb False nd by (cases "type_s f = ''D''"; cases skip)
          (simp_all add: Let_def split_def s1_def rb_def fp_def)
      have r1: "in_range s \<longrightarrow> in_range s1"
        by (simp add: s1_def in_range_ignore)
      have r2: "in_range s \<longrightarrow> in_range (snd rb)"
        using r1 in_range_read_buffer [of s1 e "nat (length_u f)"] by (simp add: rb_def)
      from Cons.IH [OF rest, of "snd rb" "fs(fp \<mapsto> fst rb)"] obtain s2 fs2 where
        A: "extract_files e dest targets skip addext pre (snd rb) (fs(fp \<mapsto> fst rb)) = Inr (s2, fs2)"
        and B: "in_range (snd rb) \<longrightarrow> in_range s2"
        and C: "\<forall>post. extract_files e dest targets skip addext (pre @ post) (snd rb) (fs(fp \<mapsto> fst rb))
                 = extract_files e dest targets skip addext post s2 fs2"
        by blast
      from step [of "[]"] A have "extract_files e dest targets skip addext (f # pre) s fs = Inr (s2, fs2)"
        by simp
      moreover from r2 B have "in_range s \<longrightarrow> in_range s2" by blast
      moreover from step C have "\<forall>post. extract_files e dest targets skip addext ((f # pre) @ post) s fs
                 = extract_files e dest targets skip addext post s2 fs2" by simp
      ultimately show ?thesis by blast
    qed
  qed
qed

lemma dump_rest_good:
  assumes g: "good s" and r: "in_range s" and small: "length (rest s) < 2 ^ 31"
  shows "\<exists>s'. dump_rest e dest f s fs = Inr (s', fs(path_append dest (name f) \<mapsto> rest s))"
proof -
  define n where "n = length (buf s) - pos s"
  have n: "length (rest s) = n" by (simp add: rest_def n_def)
  have t1: "tellg s = (int (pos s), s)" using g by (simp add: tellg_def)
  define s2 where "s2 = s\<lparr>pos := length (buf s)\<rparr>"
  have se: "seekg_end s = s2" using g by (simp add: seekg_end_def good_def s2_def Let_def)
  have g2: "good s2" using g by (simp add: good_def s2_def)
  have t2: "tellg s2 = (int (length (buf s)), s2)" using g2 by (simp add: tellg_def s2_def)
  have len: "to_int32 (int (length (buf s)) - int (pos s)) = int n"
    using r small n by (simp add: in_range_def n_def to_int32_small of_nat_diff)
  have sb: "seekg_beg (int (pos s)) s2 = s"
    using g by (simp add: seekg_beg_def s2_def good_def Let_def)
  have rd: "read n s = (rest s, s\<lparr>pos := pos s + n\<rparr>)"
    using g n by (simp add: read_def Let_def)
  have rb: "read_buffer e n s = (rest s, s\<lparr>pos := pos s + n\<rparr>)"
    using rd n by (simp add: read_buffer_def)
  show ?thesis
    by (simp add: dump_rest_def t1 se t2 len sb rb Let_def)
qed

lemma dump_rest_not_good:
  assumes g: "\<not> good s"
  shows "\<exists>s'. dump_rest e dest f s fs = Inr (s', fs(path_append dest (name f) \<mapsto> []))"
proof -
  define s1 where "s1 = s\<lparr>failbit := True\<rparr>"
  have t1: "tellg s = (- 1, s1)" using g by (simp add: tellg_def s1_def)
  define s2 where "s2 = s1\<lparr>eofbit := False\<rparr>"
  have se: "seekg_end s1 = s2" by (simp add: seekg_end_def s1_def s2_def Let_def)
  have ng2: "\<not> good s2" by (simp add: good_def s2_def s1_def)
  have t2: "tellg s2 = (- 1, s2\<lparr>failbit := True\<rparr>)" using ng2 by (simp add: tellg_def)
  have f3: "failbit (s2\<lparr>failbit := True\<rparr>)" by simp
  have sb: "\<not> good (seekg_beg (- 1) (s2\<lparr>failbit := True\<rparr>))"
    by (simp add: seekg_beg_def good_def Let_def)
  then have rb: "fst (read_buffer e 0 (seekg_beg (- 1) (s2\<lparr>failbit := True\<rparr>))) = []"
    by (simp add: read_buffer_def read_def)
  have z: "to_int32 0 = 0" by (simp add: to_int32_def)
  show ?thesis
    using rb by (simp add: dump_rest_def t1 se t2 z Let_def split_def)
qed

text \<open>
  When \<open>extract_lbr\<close> reaches the first entry \<open>f\<close> whose \<open>bad_length\<close> flag reads true
  (the entries \<open>pre\<close> before it were handled in the normal way and left the stream
  \<open>s4\<close> and the file system \<open>fs4\<close>), it writes every byte left in the stream to the
  file named after \<open>f\<close> in the destination folder, handles no later entry and returns
  0, provided the stream is still good at that point, or at its end, and fewer than
  \<open>2 ^ 31\<close> bytes are left.
\<close>

lemma extract_dump_at_flag:
  assumes sig: "fst (read 3 (ifstream_open fs infile)) = ''DWB''"
    and files: "fst (extract_parsed e fs infile) = pre @ f # post"
    and pre: "\<forall>g\<in>set pre. \<not> bad_length g"
    and bad: "bad_length f"
    and run: "extract_files e dest_folder targets skip_deleted add_extension pre
                (snd (snd (extract_parsed e fs infile))) fs = Inr (s4, fs4)"
    and ok: "good s4 \<or> rest s4 = []"
    and small: "int (length (rest s4)) < 2 ^ 31"
  shows "\<exists>out. extract_lbr e fs infile dest_folder targets skip_deleted add_extension =
           Inr (0, fs4(path_append dest_folder (name f) \<mapsto> rest s4), out)"
proof -
  define s1 where "s1 = snd (read 3 (ifstream_open fs infile))"
  define s2 where "s2 = snd (read_count s1)"
  define count where "count = fst (read_count s1)"
  define ee where "ee = extract_entries e 0 (nat (atoi count)) s2"
  define s3 where "s3 = snd (snd ee)"
  have ep: "extract_parsed e fs infile = ee"
    by (simp add: extract_parsed_def split_def Let_def ee_def count_def s2_def s1_def)
  have r1: "in_range s1"
    unfolding s1_def by (intro in_range_read in_range_open)
  have r2: "in_range s2"
    unfolding s2_def using r1 by (rule in_range_read_count)
  have r3: "in_range s3"
    unfolding s3_def ee_def using r2 by (rule in_range_extract_entries)
  have fl: "fst ee = pre @ f # post"
    using files by (simp add: ep)
  from extract_files_pre [OF pre, of e dest_folder targets skip_deleted add_extension s3 fs]
  obtain t1 ft1 where
    A: "extract_files e dest_folder targets skip_deleted add_extension pre s3 fs = Inr (t1, ft1)"
    and B: "in_range s3 \<longrightarrow> in_range t1"
    and C: "\<forall>post. extract_files e dest_folder targets skip_deleted add_extension (pre @ post) s3 fs
                 = extract_files e dest_folder targets skip_deleted add_extension post t1 ft1"
    by blast
  from run A have eq: "t1 = s4" "ft1 = fs4"
    by (simp_all add: ep s3_def)
  from B r3 eq have r4: "in_range s4" by simp
  have whole: "extract_files e dest_folder targets skip_deleted add_extension (pre @ f # post) s3 fs
      = dump_rest e dest_folder f s4 fs4"
    using C eq bad by simp
  have sm: "length (rest s4) < 2 ^ 31"
    using small by (metis of_nat_less_iff of_nat_numeral of_nat_power)
  have "\<exists>s'. dump_rest e dest_folder f s4 fs4
      = Inr (s', fs4(path_append dest_folder (name f) \<mapsto> rest s4))"
  proof (cases "good s4")
    case True
    then show ?thesis using r4 sm by (rule dump_rest_good)
  next
    case False
    with ok have "rest s4 = []" by simp
    with dump_rest_not_good [OF False, of e dest_folder f fs4] show ?thesis by simp
  qed
  then obtain s' where d: "dump_rest e dest_folder f s4 fs4
      = Inr (s', fs4(path_append dest_folder (name f) \<mapsto> rest s4))" ..
  have "extract_lbr e fs infile dest_folder targets skip_deleted add_extension
     = Inr (0, fs4(path_append dest_folder (name f) \<mapsto> rest s4), fst (snd ee))"
    using sig whole d fl
    by (simp add: extract_lbr_def split_def Let_def s1_def [symmetric] s2_def [symmetric]
        count_def [symmetric] ee_def [symmetric] s3_def [symmetric])
  then show ?thesis by blast
qed


text \<open>An archive whose second entry declares 2000000 bytes, when the flag of the first
  entry reads false: \<open>A\<close> is extracted, the rest of the stream goes to \<open>B\<close>, and \<open>C\<close> is not
  written.\<close>

lemma extract_dump_at_flag_example:
  "(case extract_lbr default_env [''a.lbr'' \<mapsto> bad_second_archive] ''a.lbr'' ''out'' [] False False of
      Inl err \<Rightarrow> None
    | Inr (r, fs', out) \<Rightarrow> Some (r, fs' ''out/A'', fs' ''out/B'', fs' ''out/C''))
   = Some (0, Some ''a'', Some ''bc'', None)"
proof -
  let ?fs = "[''a.lbr'' \<mapsto> bad_second_archive]"
  let ?A = "\<lparr>name = ''A'', path = [], length_u = 1, type_s = ''S'', bad_length = False\<rparr>"
  let ?B = "\<lparr>name = ''B'', path = [], length_u = 2000000, type_s = ''P'', bad_length = True\<rparr>"
  let ?C = "\<lparr>name = ''C'', path = [], length_u = 1, type_s = ''S'', bad_length = False\<rparr>"
  let ?s3 = "\<lparr>buf = bad_second_archive, pos = 37, eofbit = False, failbit = False\<rparr>"
  let ?s4 = "\<lparr>buf = bad_second_archive, pos = 38, eofbit = False, failbit = False\<rparr>"
  have sig: "fst (read 3 (ifstream_open ?fs ''a.lbr'')) = ''DWB''"
    by code_simp
  have files: "fst (extract_parsed default_env ?fs ''a.lbr'') = [?A] @ ?B # [?C]"
    by code_simp
  have s3: "snd (snd (extract_parsed default_env ?fs ''a.lbr'')) = ?s3"
    by code_simp
  have pre: "\<forall>g\<in>set [?A]. \<not> bad_length g" by simp
  have bad: "bad_length ?B" by simp
  have rb: "read_buffer default_env (Suc 0) ?s3 = (''a'', ?s4)"
    by code_simp
  have pa: "path_append ''out'' (petscii2ascii default_env ''A'') = ''out/A''"
    by code_simp
  have run: "extract_files default_env ''out'' [] False False [?A]
               (snd (snd (extract_parsed default_env ?fs ''a.lbr''))) ?fs
             = Inr (?s4, ?fs(''out/A'' \<mapsto> ''a''))"
    unfolding s3 by (simp add: rb pa)
  have ok: "good ?s4 \<or> rest ?s4 = []" by code_simp
  have small: "int (length (rest ?s4)) < 2 ^ 31" by code_simp
  have r4: "rest ?s4 = ''bc''" by code_simp
  have pb: "path_append ''out'' (name ?B) = ''out/B''" by code_simp
  from extract_dump_at_flag [OF sig files pre bad run ok small]
  obtain out where "extract_lbr default_env ?fs ''a.lbr'' ''out'' [] False False
      = Inr (0, (?fs(''out/A'' \<mapsto> ''a''))(path_append ''out'' (name ?B) \<mapsto> rest ?s4), out)"
    by blast
  then show ?thesis
    unfolding r4 pb by simp
qed

text \<open>
  C7: on reaching the entry with the bad length, extraction writes all the bytes left
  in the stream to the file named after that entry. The code sets \<open>f.bad_length\<close> only
  when the length is out of range (lines 234-237) and never clears it, so the flag of
  an entry with a sane length is whatever the memory held. When it reads true for the
  first entry \<open>A\<close> of an archive whose second entry \<open>B\<close> declares 2000000 bytes, the
  whole payload region \<open>abc\<close> goes to \<open>out/A\<close> and \<open>out/B\<close> is never written. And the
  directory is parsed to its end before any entry is handled (lines 219-242): when the
  record after the bad entry does not parse (an empty name), the stream has failed
  when the bad entry is reached, and \<open>out/B\<close> is written empty although nine bytes
  are left, from position 21 on.
\<close>

theorem C7_extract_dump_misplaced:
  "(case extract_lbr stale_env [''a.lbr'' \<mapsto> bad_second_archive] ''a.lbr'' ''out'' [] False False of
      Inl err \<Rightarrow> None
    | Inr (r, fs', out) \<Rightarrow> Some (r, fs' ''out/A'', fs' ''out/B''))
   = Some (0, Some ''abc'', None)
   \<and> (case extract_lbr default_env [''a.lbr'' \<mapsto> unparsed_archive] ''a.lbr'' ''out'' [] False False of
      Inl err \<Rightarrow> None
    | Inr (r, fs', out) \<Rightarrow> Some (r, fs' ''out/B''))
   = Some (0, Some [])
   \<and> drop 21 unparsed_archive = [CR] @ ''S'' @ [CR] @ '' 1 '' @ [CR] @ ''ab''"
  by code_simp

text \<open>
  C10: with a list of targets, only the entries named in it are written. The code
  skips the payload of an entry that is not a target (line 273) and then goes on to
  write its file all the same, filled with the bytes that follow. Extracting \<open>B\<close>
  from an archive of \<open>A\<close> (payload \<open>a\<close>) and \<open>B\<close> (payload \<open>b\<close>) writes
  \<open>out/A\<close> with the content \<open>b\<close>, and \<open>out/B\<close> with the one indeterminate byte of
  a buffer that the read at the end of the stream did not fill.
\<close>

theorem C10_extract_writes_nontarget:
  "(case extract_lbr default_env [''a.lbr'' \<mapsto> two_file_archive] ''a.lbr'' ''out'' [''B''] False False of
      Inl err \<Rightarrow> None
    | Inr (r, fs', out) \<Rightarrow> Some (r, fs' ''out/A'', fs' ''out/B''))
   = Some (0, Some ''b'', Some [stale_byte default_env 0])"
  by code_simp


section \<open>Listing a well-formed archive\<close>

lemma list_entries_directory:
  "good s \<Longrightarrow> rest s = directory_bytes ds @ r \<Longrightarrow> list_all parsable_entry ds \<Longrightarrow>
     list_entries (length ds) s = (map entry_file ds, advance (length (directory_bytes ds)) s)"
proof (induction ds arbitrary: s)
  case Nil
  then show ?case by (simp add: directory_bytes_def)
next
  case (Cons d ds)
  from Cons.prems have p: "parsable_entry d" and ps: "list_all parsable_entry ds" by simp_all
  from Cons.prems(2) have r: "rest s = entry_bytes d @ (directory_bytes ds @ r)"
    by (simp add: directory_bytes_def)
  have re: "read_entry s
      = ((d_name d, [d_type d], dec (int (d_len d))), advance (length (entry_bytes d)) s)"
    using Cons.prems(1) r p by (rule read_entry_bytes)
  let ?s1 = "advance (length (entry_bytes d)) s"
  have g1: "good ?s1" using Cons.prems(1) by simp
  have r1: "rest ?s1 = directory_bytes ds @ r" using r by simp
  have ih: "list_entries (length ds) ?s1
      = (map entry_file ds, advance (length (directory_bytes ds)) ?s1)"
    using g1 r1 ps by (rule Cons.IH)
  have ln: "to_uint32 (atoi (dec (int (d_len d)))) = int (d_len d)"
    using p by (intro uint_atoi_dec) (simp_all add: parsable_entry_def)
  show ?case
    using re ih ln
    by (simp add: entry_file_def directory_bytes_def advance_advance)
qed

lemma archive_header:
  assumes f: "fs arc = Some (archive_bytes es payload)" and n: "int (length es) < 2 ^ 31"
  shows "read 3 (ifstream_open fs arc) = (''DWB'', advance 3 (ifstream_open fs arc))"
    and "read_count (advance 3 (ifstream_open fs arc))
         = (dec (int (length es)), advance (length (header_bytes (length es))) (ifstream_open fs arc))"
    and "good (ifstream_open fs arc)"
    and "rest (ifstream_open fs arc) = archive_bytes es payload"
    and "atoi (dec (int (length es))) = int (length es)"
proof -
  let ?s = "ifstream_open fs arc"
  show g: "good ?s" using f by (simp add: ifstream_open_def good_def)
  show r: "rest ?s = archive_bytes es payload" using f by (simp add: ifstream_open_def rest_def)
  then have r': "rest ?s = ''DWB'' @ (CHR '' '' # dec (int (length es)) @ CHR '' '' # CR
        # (directory_bytes es @ payload))"
    by (simp add: archive_bytes_def header_bytes_def)
  show "read 3 ?s = (''DWB'', advance 3 ?s)"
    using g r' by (intro read_exact) simp_all
  have g3: "good (advance 3 ?s)" using g by simp
  have r3: "rest (advance 3 ?s) = CHR '' '' # dec (int (length es)) @ CHR '' '' # CR
        # (directory_bytes es @ payload)"
    using r' by simp
  have n32: "int (length es) < 2 ^ 32" using n by simp
  from read_count_bytes [OF g3 r3 n32]
  show "read_count (advance 3 ?s)
         = (dec (int (length es)), advance (length (header_bytes (length es))) ?s)"
    by (simp add: advance_advance header_bytes_def eval_nat_numeral)
  show "atoi (dec (int (length es))) = int (length es)"
    using n by (intro atoi_dec) simp_all
qed

lemma rest_after_header:
  assumes r: "rest s = archive_bytes es payload"
  shows "rest (advance (length (header_bytes (length es))) s) = directory_bytes es @ payload"
  using r by (simp add: archive_bytes_def)

lemma listed_entries_archive:
  assumes f: "fs arc = Some (archive_bytes es payload)" and n: "int (length es) < 2 ^ 31"
    and p: "list_all parsable_entry es"
  shows "listed_entries fs arc False = map entry_file es"
proof -
  let ?s = "ifstream_open fs arc"
  note h = archive_header [of fs arc es payload, OF f n]
  let ?s2 = "advance (length (header_bytes (length es))) ?s"
  have g2: "good ?s2" using h(3) by simp
  have r2: "rest ?s2 = directory_bytes es @ payload" using h(4) by (rule rest_after_header)
  from list_entries_directory [OF g2 r2 p]
  show ?thesis
    by (simp add: listed_entries_def h(1) h(2) h(5))
qed

lemma list_banner_archive:
  assumes f: "fs arc = Some (archive_bytes es payload)" and n: "int (length es) < 2 ^ 31"
  shows "list_banner e fs arc = (if verbose e
       then filename arc @ '' '' @ dec (int (length es)) @ '' entries'' @ [CHR 0x0A] else [])"
  using archive_header [of fs arc es payload, OF f n] by (simp add: list_banner_def to_string_def)


section \<open>Listing an archive\<close>

lemma to_string_field:
  assumes "- (2 ^ 31) \<le> n" "n < 2 ^ 31"
  shows "to_string n \<noteq> [] \<and> CHR '' '' \<notin> set (to_string n) \<and> NUL \<notin> set (to_string n)
     \<and> length (to_string n) < 256"
proof -
  define m where "m = (if n < 0 then - n else n)"
  have m: "0 \<le> m" "m < 2 ^ 32" using assms by (simp_all add: m_def)
  have d: "\<forall>c\<in>set (dec m). is_digit c" using m(1) by (rule dec_digits)
  have "m < 10 ^ 10" using m(2) by simp
  from length_dec [OF m(1) this] have l: "length (dec m) \<le> 10" by simp
  have ne: "dec m \<noteq> []" by (rule dec_nonempty)
  have sp: "CHR '' '' \<notin> set (dec m)" using d is_digit_not_special by blast
  have nu: "NUL \<notin> set (dec m)" using d is_digit_not_special by blast
  have ts: "to_string n = (if n < 0 then CHR ''-'' # dec m else dec m)"
    by (simp add: to_string_def m_def)
  have mn: "CHR ''-'' \<noteq> CHR '' ''" "CHR ''-'' \<noteq> NUL" by (simp_all add: NUL_def)
  show ?thesis
    unfolding ts using l ne sp nu mn by (cases "n < 0") simp_all
qed

lemma strtol_minus:
  assumes "0 \<le> m" "m \<le> 2 ^ 63"
  shows "strtol (CHR ''-'' # dec m) = - m"
proof -
  have ns: "\<not> is_space (CHR ''-'')" by (simp add: is_space_def)
  have dw: "dropWhile is_space (CHR ''-'' # dec m) = CHR ''-'' # dec m" using ns by simp
  have dv: "digits_value 0 (dec m) = m" using assms(1) by (rule digits_value_dec0)
  have mx: "max (- (2 ^ 63)) (- m) = - m" using assms(2) by simp
  show ?thesis
    unfolding strtol_def dw Let_def list.case dv using mx by simp
qed

lemma atoi_to_string:
  assumes "- (2 ^ 31) \<le> n" "n < 2 ^ 31"
  shows "atoi (to_string n) = n"
proof (cases "n < 0")
  case False
  then have "to_string n = dec n" by (simp add: to_string_def)
  moreover have "atoi (dec n) = n" using False assms(2) by (intro atoi_dec) simp_all
  ultimately show ?thesis by simp
next
  case True
  then have ts: "to_string n = CHR ''-'' # dec (- n)" by (simp add: to_string_def)
  have "strtol (CHR ''-'' # dec (- n)) = - (- n)"
    using True assms(1) by (intro strtol_minus) simp_all
  then have "strtol (to_string n) = n" using ts by simp
  then show ?thesis using assms by (simp add: atoi_def to_int32_small)
qed

lemma read_entry_raw:
  assumes g: "good s" and r: "rest s = raw_bytes d @ r" and p: "readable d"
  shows "read_entry s = ((r_name d, [r_type d], to_string (r_len d)), advance (length (raw_bytes d)) s)"
proof -
  let ?nm = "r_name d" and ?ln = "to_string (r_len d)"
  from p have nm: "?nm \<noteq> []" "length ?nm < 256" "CR \<notin> set ?nm" "NUL \<notin> set ?nm"
    and ty: "r_type d \<noteq> CR" "r_type d \<noteq> NUL"
    and ln: "- (2 ^ 31) \<le> r_len d" "r_len d < 2 ^ 31"
    by (simp_all add: readable_def)
  from to_string_field [OF ln] have dl: "?ln \<noteq> []" "CHR '' '' \<notin> set ?ln" "NUL \<notin> set ?ln"
    "length ?ln < 256"
    by simp_all
  have r0: "rest s = ?nm @ CR # ([r_type d] @ CR # CHR '' '' # ?ln @ CHR '' '' # CR # r)"
    using r by (simp add: raw_bytes_def)
  have 1: "get_str 256 CR s = (?nm, advance (length ?nm) s)"
    using g r0 nm by (intro get_str_field) simp_all
  let ?s1 = "advance (length ?nm) s"
  have g1: "good ?s1" and r1: "rest ?s1 = CR # ([r_type d] @ CR # CHR '' '' # ?ln @ CHR '' '' # CR # r)"
    using g r0 by simp_all
  have 2: "ignore 1 ?s1 = advance 1 ?s1" using g1 r1 by (simp add: ignore_one)
  let ?s2 = "advance 1 ?s1"
  have g2: "good ?s2" and r2: "rest ?s2 = [r_type d] @ CR # (CHR '' '' # ?ln @ CHR '' '' # CR # r)"
    using g1 r1 by simp_all
  have 3: "get_str 256 CR ?s2 = ([r_type d], advance (length [r_type d]) ?s2)"
    using g2 r2 ty by (intro get_str_field) simp_all
  let ?s3 = "advance 1 ?s2"
  have g3: "good ?s3" and r3: "rest ?s3 = CR # (CHR '' '' # ?ln @ CHR '' '' # CR # r)"
    using g2 r2 by simp_all
  have 4: "ignore 1 ?s3 = advance 1 ?s3" using g3 r3 by (simp add: ignore_one)
  let ?s4 = "advance 1 ?s3"
  have g4: "good ?s4" and r4: "rest ?s4 = CHR '' '' # (?ln @ CHR '' '' # CR # r)"
    using g3 r3 by simp_all
  have 5: "ignore 1 ?s4 = advance 1 ?s4" using g4 r4 by (simp add: ignore_one)
  let ?s5 = "advance 1 ?s4"
  have g5: "good ?s5" and r5: "rest ?s5 = ?ln @ CHR '' '' # (CR # r)"
    using g4 r4 by simp_all
  have 6: "get_str 256 (CHR '' '') ?s5 = (?ln, advance (length ?ln) ?s5)"
    using g5 r5 dl by (intro get_str_field) simp_all
  let ?s6 = "advance (length ?ln) ?s5"
  have g6: "good ?s6" and r6: "rest ?s6 = CHR '' '' # (CR # r)"
    using g5 r5 by simp_all
  have 7: "ignore 1 ?s6 = advance 1 ?s6" using g6 r6 by (simp add: ignore_one)
  let ?s7 = "advance 1 ?s6"
  have g7: "good ?s7" and r7: "rest ?s7 = CR # r"
    using g6 r6 by simp_all
  have 8: "ignore 1 ?s7 = advance 1 ?s7" using g7 r7 by (simp add: ignore_one)
  have fin: "advance 1 ?s7 = advance (length (raw_bytes d)) s"
    by (simp add: raw_bytes_def advance_advance)
  have "read_entry s = ((?nm, [r_type d], ?ln), advance 1 ?s7)"
    unfolding read_entry_def
    using 1 2 3 4 5 6 7 8
    by (simp add: Let_def)
  with fin show ?thesis by simp
qed

lemma list_entries_raw:
  "good s \<Longrightarrow> rest s = concat (map raw_bytes rs) @ q \<Longrightarrow> list_all readable rs \<Longrightarrow>
     fst (list_entries (length rs) s)
       = map (\<lambda>r. \<lparr>name = r_name r, path = [], length_u = r_len r mod 2 ^ 32,
                    type_s = [r_type r], bad_length = False\<rparr>) rs"
proof (induction rs arbitrary: s)
  case Nil
  then show ?case by simp
next
  case (Cons d ds)
  from Cons.prems have p: "readable d" and ps: "list_all readable ds" by simp_all
  from Cons.prems(2) have r: "rest s = raw_bytes d @ (concat (map raw_bytes ds) @ q)"
    by simp
  have re: "read_entry s
      = ((r_name d, [r_type d], to_string (r_len d)), advance (length (raw_bytes d)) s)"
    using Cons.prems(1) r p by (rule read_entry_raw)
  let ?s1 = "advance (length (raw_bytes d)) s"
  have g1: "good ?s1" using Cons.prems(1) by simp
  have r1: "rest ?s1 = concat (map raw_bytes ds) @ q" using r by simp
  note ih = Cons.IH [OF g1 r1 ps]
  have ln: "to_uint32 (atoi (to_string (r_len d))) = r_len d mod 2 ^ 32"
    using p by (simp add: readable_def atoi_to_string to_uint32_def)
  show ?case
    using re ih ln by (simp add: split_def)
qed

lemma header_parse:
  assumes f: "fs arc = Some (header_bytes n @ body)" and n: "int n < 2 ^ 31"
  shows "read 3 (ifstream_open fs arc) = (''DWB'', advance 3 (ifstream_open fs arc))"
    and "read_count (advance 3 (ifstream_open fs arc))
         = (dec (int n), advance (length (header_bytes n)) (ifstream_open fs arc))"
    and "good (ifstream_open fs arc)"
    and "rest (advance (length (header_bytes n)) (ifstream_open fs arc)) = body"
    and "atoi (dec (int n)) = int n"
proof -
  let ?s = "ifstream_open fs arc"
  show g: "good ?s" using f by (simp add: ifstream_open_def good_def)
  have r: "rest ?s = header_bytes n @ body" using f by (simp add: ifstream_open_def rest_def)
  then show "rest (advance (length (header_bytes n)) ?s) = body" by simp
  from r have r': "rest ?s = ''DWB'' @ (CHR '' '' # dec (int n) @ CHR '' '' # CR # body)"
    by (simp add: header_bytes_def)
  show "read 3 ?s = (''DWB'', advance 3 ?s)"
    using g r' by (intro read_exact) simp_all
  have g3: "good (advance 3 ?s)" using g by simp
  have r3: "rest (advance 3 ?s) = CHR '' '' # dec (int n) @ CHR '' '' # CR # body"
    using r' by simp
  have n32: "int n < 2 ^ 32" using n by simp
  from read_count_bytes [OF g3 r3 n32]
  show "read_count (advance 3 ?s) = (dec (int n), advance (length (header_bytes n)) ?s)"
    by (simp add: advance_advance header_bytes_def eval_nat_numeral)
  show "atoi (dec (int n)) = int n"
    using n by (intro atoi_dec) simp_all
qed

lemma list_line_raw:
  assumes "readable r"
  shows "list_line e skip_deleted \<lparr>name = r_name r, path = [], length_u = r_len r mod 2 ^ 32,
                    type_s = [r_type r], bad_length = False\<rparr> = listed_line e skip_deleted r"
proof -
  from assms have ln: "- (2 ^ 31) \<le> r_len r" "r_len r < 2 ^ 31" by (simp_all add: readable_def)
  have "(r_len r mod 2 ^ 32 > MAX_SANE_LENGTH) = (r_len r < 0 \<or> r_len r > 1048576)"
    using uint_gt_iff [OF ln] by (simp add: to_uint32_def MAX_SANE_LENGTH_def)
  then show ?thesis
    by (auto simp: list_line_def listed_line_def)
qed

text \<open>
  C9 as stated: every entry whose declared length is negative or above 1 MiB is flagged
  with \<open>(bad)\<close> in the listing. A run that is not verbose flags nothing: the listing
  of an archive with the declared lengths 2000000, -5 and 2 shows no \<open>(bad)\<close>.
\<close>

theorem C9_list_counterexample:
  "list_lbr default_env [''a.lbr'' \<mapsto> bad_archive] ''a.lbr'' False False =
     (0, ''A (S) 2000000'' @ [CHR 0x0A] @ ''B (P) 4294967291'' @ [CHR 0x0A] @ ''C (S) 2'' @ [CHR 0x0A])"
  by code_simp

text \<open>
  C9, amended: for an archive of records that parse, each with a length field that
  holds an integer in the range of \<open>int\<close>, \<open>list_lbr\<close> without the numeric sort returns
  0 and prints, after the banner of a verbose run, one line per record in the order of
  the directory: nothing for a \<open>D\<close> record that is skipped (\<open>[deleted]\<close> when verbose),
  else \<open>name (type) length\<close> with name and type decoded and the length as an unsigned
  32-bit decimal, followed by \<open>(bad)\<close> exactly when the run is verbose and the length
  written is negative or above 1 MiB. Listing goes on after such a record.
\<close>

theorem C9_list_amended:
  assumes f: "fs arc = Some (raw_archive rs payload)" and rd: "list_all readable rs"
    and n: "int (length rs) < 2 ^ 31"
  shows "list_lbr e fs arc skip_deleted False =
     (0, (if verbose e
          then filename arc @ '' '' @ dec (int (length rs)) @ '' entries'' @ [CHR 0x0A] else [])
         @ concat (map (listed_line e skip_deleted) rs))"
proof -
  let ?s = "ifstream_open fs arc"
  let ?body = "concat (map raw_bytes rs) @ payload"
  have f': "fs arc = Some (header_bytes (length rs) @ ?body)"
    using f by (simp add: raw_archive_def)
  note h = header_parse [of fs arc "length rs" ?body, OF f' n]
  let ?s2 = "advance (length (header_bytes (length rs))) ?s"
  have g2: "good ?s2" using h(3) by simp
  note le = list_entries_raw [OF g2 h(4) rd]
  have lines: "map (list_line e skip_deleted)
        (map (\<lambda>r. \<lparr>name = r_name r, path = [], length_u = r_len r mod 2 ^ 32,
                    type_s = [r_type r], bad_length = False\<rparr>) rs)
      = map (listed_line e skip_deleted) rs"
    using rd list_line_raw [of _ e skip_deleted] by (simp add: list_all_iff)
  show ?thesis
    unfolding lines [symmetric] le [symmetric]
    by (simp add: list_lbr_def h(1) h(2) h(5) split_def Let_def to_string_def)
qed

text \<open>A verbose listing of the archive with the lengths 2000000, -5 and 2.\<close>

theorem C9_list_witness:
  "list_lbr verbose_env [''a.lbr'' \<mapsto> bad_archive] ''a.lbr'' False False =
     (0, ''a.lbr 3 entries'' @ [CHR 0x0A] @ ''A (S) 2000000 (bad)'' @ [CHR 0x0A]
         @ ''B (P) 4294967291 (bad)'' @ [CHR 0x0A] @ ''C (S) 2'' @ [CHR 0x0A])"
proof -
  let ?fs = "[''a.lbr'' \<mapsto> bad_archive]"
  have a: "bad_archive = raw_archive bad_entries ''ab''" by code_simp
  have f: "?fs ''a.lbr'' = Some (raw_archive bad_entries ''ab'')" by (simp add: a)
  have rd: "list_all readable bad_entries" by code_simp
  have n: "int (length bad_entries) < 2 ^ 31" by code_simp
  have r: "(if verbose verbose_env
          then filename ''a.lbr'' @ '' '' @ dec (int (length bad_entries)) @ '' entries''
               @ [CHR 0x0A] else [])
         @ concat (map (listed_line verbose_env False) bad_entries)
      = ''a.lbr 3 entries'' @ [CHR 0x0A] @ ''A (S) 2000000 (bad)'' @ [CHR 0x0A]
         @ ''B (P) 4294967291 (bad)'' @ [CHR 0x0A] @ ''C (S) 2'' @ [CHR 0x0A]"
    by code_simp
  from C9_list_amended [of ?fs "''a.lbr''" bad_entries "''ab''" verbose_env False, OF f rd n]
  show ?thesis unfolding r .
qed

text \<open>
  A length field beyond the range of \<open>int\<close> is read through \<open>atoi\<close>, which keeps the low
  32 bits: 4294967297 is listed as 1 and is not flagged, even in a verbose run.
\<close>

lemma list_length_beyond_int:
  "list_lbr verbose_env
      [''a.lbr'' \<mapsto> ''DWB 1 '' @ [CR] @ ''A'' @ [CR] @ ''S'' @ [CR] @ '' 4294967297 '' @ [CR]]
      ''a.lbr'' False False
     = (0, ''a.lbr 1 entries'' @ [CHR 0x0A] @ ''A (S) 1'' @ [CHR 0x0A])"
  by code_simp

section \<open>Building an archive and listing it\<close>

text \<open>
  \<open>build_lbr\<close> without sort, padding or stripping writes the header, one directory
  record per input file and the payloads; \<open>list_lbr\<close> reads the records back. The
  names go through \<open>ascii2petscii\<close> on the way in and \<open>petscii2ascii\<close> on the way out.
\<close>

lemma cval_CR: "cval e CR = 13" by (simp add: cval_def CR_def)
lemma cval_NUL: "cval e NUL = 0" by (simp add: cval_def NUL_def)

lemma char_of_upper_not_ctl:
  assumes "97 \<le> v" "v \<le> (122::int)"
  shows "char_of (v - 32) \<noteq> CR \<and> char_of (v - 32) \<noteq> NUL"
proof -
  have e: "(of_char (char_of (v - 32)) :: int) = v - 32" using assms by (simp add: of_char_of_int)
  have "char_of (v - 32) \<noteq> CR"
  proof
    assume "char_of (v - 32) = CR"
    then have "(of_char (char_of (v - 32)) :: int) = of_char CR" by simp
    with e assms show False by (simp add: CR_def)
  qed
  moreover have "char_of (v - 32) \<noteq> NUL"
  proof
    assume "char_of (v - 32) = NUL"
    then have "(of_char (char_of (v - 32)) :: int) = of_char NUL" by simp
    with e assms show False by (simp add: NUL_def)
  qed
  ultimately show ?thesis by simp
qed

lemma enc_char_not_ctl: "ascii2petscii_char e c \<noteq> CR \<and> ascii2petscii_char e c \<noteq> NUL"
proof -
  have lit: "CHR ''?'' \<noteq> CR" "CHR ''?'' \<noteq> NUL" "CHR ''/'' \<noteq> CR" "CHR ''/'' \<noteq> NUL"
    "CHR '' '' \<noteq> CR" "CHR '' '' \<noteq> NUL" "CHR 0x27 \<noteq> CR" "CHR 0x27 \<noteq> NUL"
    "CHR ''('' \<noteq> CR" "CHR ''('' \<noteq> NUL" "CHR '')'' \<noteq> CR" "CHR '')'' \<noteq> NUL"
    by (simp_all add: CR_def NUL_def)
  have self: "\<not> cval e c < 32 \<Longrightarrow> c \<noteq> CR \<and> c \<noteq> NUL"
    using cval_CR [of e] cval_NUL [of e] by auto
  show ?thesis
    unfolding ascii2petscii_char_def Let_def
    using lit self char_of_upper_not_ctl [of "cval e c"]
    by (simp split: if_splits)
qed

lemma enc_name_ok:
  assumes "nm \<noteq> []" "length nm \<le> 255" "convert_petscii e \<or> CR \<notin> set nm \<and> NUL \<notin> set nm"
  shows "ascii2petscii e nm \<noteq> [] \<and> length (ascii2petscii e nm) \<le> 255
     \<and> CR \<notin> set (ascii2petscii e nm) \<and> NUL \<notin> set (ascii2petscii e nm)"
proof (cases "convert_petscii e")
  case True
  then have "ascii2petscii e nm = map (ascii2petscii_char e) nm" by (simp add: ascii2petscii_def)
  with assms enc_char_not_ctl [of e] show ?thesis by (auto simp: image_iff) metis+
next
  case False
  with assms show ?thesis by (simp add: ascii2petscii_def)
qed

lemma derived_type_cases: "derived_type nm sz \<in> {CHR ''D'', CHR ''P'', CHR ''U'', CHR ''R'', CHR ''S''}"
  by (simp add: derived_type_def)

lemma derived_type_ok: "derived_type nm sz \<noteq> CR \<and> derived_type nm sz \<noteq> NUL"
  using derived_type_cases [of nm sz] by (auto simp: CR_def NUL_def)

lemma derived_type_stable: "stable_char (derived_type nm sz)"
  using derived_type_cases [of nm sz] by (auto simp: stable_char_def)

lemma dec_type_char: "petscii2ascii e [derived_type nm sz] = [derived_type nm sz]"
  by (simp add: petscii2ascii_def dec_stable derived_type_stable)

lemma built_entry_parsable:
  assumes "filename p \<noteq> []" "length (filename p) \<le> 255"
    "convert_petscii e \<or> CR \<notin> set (filename p) \<and> NUL \<notin> set (filename p)"
    "int (length (the (fs p))) < 2 ^ 32"
  shows "parsable_entry (built_entry e fs p)"
  using enc_name_ok [OF assms(1,2,3)] derived_type_ok assms(4)
  by (simp add: parsable_entry_def built_entry_def)

lemma stat_entries_present:
  "\<forall>p\<in>set input. p \<in> dom fs \<Longrightarrow>
     stat_entries fs input = Inr (map (\<lambda>p. \<lparr>name = filename p, path = p,
        length_u = to_uint32 (int (length (the (fs p)))), type_s = [], bad_length = False\<rparr>) input)"
  by (induction input) (auto simp: stat_entry_def)

lemma dir_record_built:
  assumes "int (length (the (fs p))) < 2 ^ 32"
  shows "dir_record e False \<lparr>name = filename p, path = p,
        length_u = to_uint32 (int (length (the (fs p)))), type_s = [], bad_length = False\<rparr>
     = entry_bytes (built_entry e fs p)"
proof -
  have u: "to_uint32 (int (length (the (fs p)))) = int (length (the (fs p)))"
    using assms by (intro to_uint32_nonneg) simp_all
  show ?thesis
    by (simp add: dir_record_def entry_bytes_def built_entry_def u strip_name_def
        type_of_entry_def derived_type_def Let_def)
qed

lemma directory_built:
  assumes "\<forall>p\<in>set input. int (length (the (fs p))) < 2 ^ 32"
  shows "concat (map (dir_record e False) (map (\<lambda>p. \<lparr>name = filename p, path = p,
        length_u = to_uint32 (int (length (the (fs p)))), type_s = [], bad_length = False\<rparr>) input))
     = directory_bytes (map (built_entry e fs) input)"
  using assms by (induction input) (simp_all add: directory_bytes_def dir_record_built)

lemma build_plain:
  assumes ex: "\<forall>p\<in>set input. p \<in> dom fs"
    and sz: "\<forall>p\<in>set input. int (length (the (fs p))) < 2 ^ 32"
  shows "\<exists>payload out. build_lbr e fs outfile input False False False
     = Inr (0, fs(outfile \<mapsto> archive_bytes (map (built_entry e fs) input) payload), out)"
proof -
  let ?files = "map (\<lambda>p. \<lparr>name = filename p, path = p,
        length_u = to_uint32 (int (length (the (fs p)))), type_s = [], bad_length = False\<rparr>) input"
  have st: "stat_entries fs input = Inr ?files" using ex by (rule stat_entries_present)
  have "write_lbr e fs outfile False ?files
     = fs(outfile \<mapsto> archive_bytes (map (built_entry e fs) input)
           (concat (map (payload_of e (fs(outfile \<mapsto> []))) ?files)))"
    using directory_built [OF sz, of e]
    by (simp add: write_lbr_def archive_bytes_def header_bytes_def Let_def)
  with st show ?thesis by (simp add: build_lbr_def del: fun_upd_apply map_map) blast
qed

lemma list_lbr_lines:
  assumes "fst (read 3 (ifstream_open fs arc)) = ''DWB''"
  shows "list_lbr e fs arc skip_deleted sort_numerical
     = (0, list_banner e fs arc
           @ concat (map (list_line e skip_deleted) (listed_entries fs arc sort_numerical)))"
  using assms by (simp add: list_lbr_def list_banner_def listed_entries_def split_def Let_def)

lemma list_line_entry:
  "list_line e False (entry_file d) =
     petscii2ascii e (d_name d) @ '' ('' @ petscii2ascii e [d_type d] @ '') '' @ dec (int (d_len d))
     @ (if verbose e \<and> int (d_len d) > 1048576 then '' (bad)'' else []) @ [CHR 0x0A]"
  by (simp add: list_line_def entry_file_def MAX_SANE_LENGTH_def)

text \<open>
  C1, amended: for input files that exist, with a name of 1 to 255 bytes (free of CR and
  NUL when the conversion is off), a size below \<open>2 ^ 32\<close> and fewer than \<open>2 ^ 31\<close> of
  them, \<open>build_lbr\<close> without sort, padding or stripping returns 0, and the archive it
  wrote lists exactly one entry per input file, in the order given: the stored name is
  the encoded file name, the length is the size of the file, the type is \<open>D\<close> for an
  empty file and else \<open>P\<close>, \<open>U\<close>, \<open>R\<close> or \<open>S\<close> by the extension compared without case;
  \<open>list_lbr\<close> returns 0 and prints one line per file, the name decoded from the encoded
  name.
\<close>

theorem C1_build_list_amended:
  assumes ex: "\<forall>p\<in>set input. p \<in> dom fs"
    and names: "\<forall>p\<in>set input. filename p \<noteq> [] \<and> length (filename p) \<le> 255
                  \<and> (convert_petscii e \<or> CR \<notin> set (filename p) \<and> NUL \<notin> set (filename p))"
    and sz: "\<forall>p\<in>set input. int (length (the (fs p))) < 2 ^ 32"
    and cnt: "int (length input) < 2 ^ 31"
  shows "\<exists>fs' out. build_lbr e fs outfile input False False False = Inr (0, fs', out)
     \<and> map (\<lambda>f. (name f, length_u f, type_s f)) (listed_entries fs' outfile False)
         = map (\<lambda>p. (ascii2petscii e (filename p), int (length (the (fs p))),
                      [derived_type (filename p) (length (the (fs p)))])) input
     \<and> list_lbr e fs' outfile False False
         = (0, list_banner e fs' outfile
               @ concat (map (\<lambda>p. petscii2ascii e (ascii2petscii e (filename p))
                     @ '' ('' @ [derived_type (filename p) (length (the (fs p)))] @ '') ''
                     @ dec (int (length (the (fs p))))
                     @ (if verbose e \<and> int (length (the (fs p))) > 1048576 then '' (bad)'' else [])
                     @ [CHR 0x0A]) input))"
proof -
  let ?es = "map (built_entry e fs) input"
  from build_plain [OF ex sz, of e outfile] obtain payload out where
    b: "build_lbr e fs outfile input False False False
          = Inr (0, fs(outfile \<mapsto> archive_bytes ?es payload), out)"
    by blast
  let ?fs' = "fs(outfile \<mapsto> archive_bytes ?es payload)"
  have f: "?fs' outfile = Some (archive_bytes ?es payload)" by simp
  have n: "int (length ?es) < 2 ^ 31" using cnt by simp
  have p: "list_all parsable_entry ?es"
    using names sz by (simp add: list_all_iff built_entry_parsable)
  have le: "listed_entries ?fs' outfile False = map entry_file ?es"
    using f n p by (rule listed_entries_archive)
  have sig: "fst (read 3 (ifstream_open ?fs' outfile)) = ''DWB''"
    using archive_header(1) [of ?fs' outfile ?es payload, OF f n] by simp
  have l1: "map (\<lambda>f. (name f, length_u f, type_s f)) (listed_entries ?fs' outfile False)
         = map (\<lambda>p. (ascii2petscii e (filename p), int (length (the (fs p))),
                      [derived_type (filename p) (length (the (fs p)))])) input"
    by (simp add: le entry_file_def built_entry_def)
  have l2: "list_lbr e ?fs' outfile False False
      = (0, list_banner e ?fs' outfile
               @ concat (map (\<lambda>p. petscii2ascii e (ascii2petscii e (filename p))
                     @ '' ('' @ [derived_type (filename p) (length (the (fs p)))] @ '') ''
                     @ dec (int (length (the (fs p))))
                     @ (if verbose e \<and> int (length (the (fs p))) > 1048576 then '' (bad)'' else [])
                     @ [CHR 0x0A]) input))"
    unfolding list_lbr_lines [OF sig] le
    by (simp add: list_line_entry dec_type_char built_entry_def comp_def)
  from b l1 l2 show ?thesis by blast
qed

text \<open>
  C1 as stated: the listed name matches the name of the source file. With the conversion
  on (the default) the name is folded on the way in: the file \<open>a.prg\<close> is listed as
  \<open>A.PRG\<close>.
\<close>

theorem C1_build_list_counterexample:
  "map name (listed_entries
      (fst (snd (projr (build_lbr default_env [''a.prg'' \<mapsto> ''x''] ''o.lbr'' [''a.prg'']
          False False False)))) ''o.lbr'' False) = [''A.PRG'']
   \<and> list_lbr default_env
      (fst (snd (projr (build_lbr default_env [''a.prg'' \<mapsto> ''x''] ''o.lbr'' [''a.prg'']
          False False False)))) ''o.lbr'' False False = (0, ''A.PRG (P) 1'' @ [CHR 0x0A])"
  by code_simp

text \<open>The amended statement on three files: an empty one, a text file and a program
  in a folder.\<close>

theorem C1_build_list_witness:
  "\<exists>fs' out. build_lbr default_env source_files ''o.lbr'' [''BB.PRG'', ''ww.txt'', ''d/hello.Prg'']
        False False False = Inr (0, fs', out)
     \<and> map (\<lambda>f. (name f, length_u f, type_s f)) (listed_entries fs' ''o.lbr'' False)
         = [(''BB.PRG'', 0, ''D''), (''WW.TXT'', 8, ''S''), (''HELLO.PRG'', 3, ''P'')]
     \<and> list_lbr default_env fs' ''o.lbr'' False False
         = (0, ''BB.PRG (D) 0'' @ [CHR 0x0A] @ ''WW.TXT (S) 8'' @ [CHR 0x0A]
               @ ''HELLO.PRG (P) 3'' @ [CHR 0x0A])"
proof -
  let ?input = "[''BB.PRG'', ''ww.txt'', ''d/hello.Prg'']"
  have h1: "\<forall>p\<in>set ?input. p \<in> dom source_files" by (simp add: source_files_def)
  have h2: "\<forall>p\<in>set ?input. filename p \<noteq> [] \<and> length (filename p) \<le> 255
                  \<and> (convert_petscii default_env
                       \<or> CR \<notin> set (filename p) \<and> NUL \<notin> set (filename p))"
  proof -
    have "filename ''BB.PRG'' = ''BB.PRG''" "filename ''ww.txt'' = ''ww.txt''"
      "filename ''d/hello.Prg'' = ''hello.Prg''"
      by code_simp+
    then show ?thesis by (simp add: default_env_def)
  qed
  have h3: "\<forall>p\<in>set ?input. int (length (the (source_files p))) < 2 ^ 32"
    by (simp add: source_files_def)
  have h4: "int (length ?input) < 2 ^ 31" by simp
  have r1: "map (\<lambda>p. (ascii2petscii default_env (filename p), int (length (the (source_files p))),
                      [derived_type (filename p) (length (the (source_files p)))])) ?input
      = [(''BB.PRG'', 0, ''D''), (''WW.TXT'', 8, ''S''), (''HELLO.PRG'', 3, ''P'')]"
    by code_simp
  have r2: "concat (map (\<lambda>p. petscii2ascii default_env (ascii2petscii default_env (filename p))
                     @ '' ('' @ [derived_type (filename p) (length (the (source_files p)))] @ '') ''
                     @ dec (int (length (the (source_files p))))
                     @ (if verbose default_env \<and> int (length (the (source_files p))) > 1048576
                        then '' (bad)'' else [])
                     @ [CHR 0x0A]) ?input)
      = ''BB.PRG (D) 0'' @ [CHR 0x0A] @ ''WW.TXT (S) 8'' @ [CHR 0x0A]
               @ ''HELLO.PRG (P) 3'' @ [CHR 0x0A]"
    by code_simp
  have r3: "list_banner default_env fs' ''o.lbr'' = []" for fs'
    by (simp add: list_banner_def default_env_def split_def)
  from C1_build_list_amended [OF h1 h2 h3 h4, of "''o.lbr''"] show ?thesis
    unfolding r1 r2 r3 by simp
qed

section \<open>Locating an entry\<close>

lemma first_char_single: "first_char [t] = t" by (simp add: first_char_def)

lemma sane_atoi:
  assumes "sane_entry d"
  shows "atoi (dec (int (d_len d))) = int (d_len d)"
  using assms by (intro atoi_dec) (simp_all add: sane_entry_def MAX_SANE_LENGTH_def)

lemma find_loop_found:
  "good s \<Longrightarrow> rest s = directory_bytes es @ r \<Longrightarrow> list_all sane_entry es \<Longrightarrow> found st \<Longrightarrow>
     find_loop e target skip_deleted (length es) s st
       = (False, advance (length (directory_bytes es)) s, st)"
proof (induction es arbitrary: s)
  case Nil
  then show ?case by (simp add: directory_bytes_def)
next
  case (Cons d ds)
  from Cons.prems have sd: "sane_entry d" and ps: "list_all sane_entry ds" by simp_all
  from sd have p: "parsable_entry d" and mx: "int (d_len d) \<le> MAX_SANE_LENGTH"
    by (simp_all add: sane_entry_def)
  from Cons.prems(2) have r: "rest s = entry_bytes d @ (directory_bytes ds @ r)"
    by (simp add: directory_bytes_def)
  have re: "read_entry s
      = ((d_name d, [d_type d], dec (int (d_len d))), advance (length (entry_bytes d)) s)"
    using Cons.prems(1) r p by (rule read_entry_bytes)
  let ?s1 = "advance (length (entry_bytes d)) s"
  have g1: "good ?s1" using Cons.prems(1) by simp
  have r1: "rest ?s1 = directory_bytes ds @ r" using r by simp
  have ih: "find_loop e target skip_deleted (length ds) ?s1 st
      = (False, advance (length (directory_bytes ds)) ?s1, st)"
    using g1 r1 ps Cons.prems(4) by (rule Cons.IH)
  show ?case
    using re ih mx Cons.prems(4) tellg_good [OF Cons.prems(1)] sane_atoi [OF sd]
    by (simp add: directory_bytes_def advance_advance)
qed

lemma find_loop_directory:
  "good s \<Longrightarrow> rest s = directory_bytes es @ r \<Longrightarrow> list_all sane_entry es \<Longrightarrow> \<not> found st \<Longrightarrow>
     find_loop e target skip_deleted (length es) s st
       = (False, advance (length (directory_bytes es)) s,
          case dropWhile (\<lambda>d. \<not> accepts e target skip_deleted d) es of
            [] \<Rightarrow> st\<lparr>coff := coff st + int (payload_size es)\<rparr>
          | d # _ \<Rightarrow> \<lparr>coff = coff st + int (payload_size (scanned e target skip_deleted es)),
                      found = True, length_v = int (d_len d),
                      diroffset_v = int (pos s)
                        + int (length (directory_bytes (scanned e target skip_deleted es)))\<rparr>)"
proof (induction es arbitrary: s st)
  case Nil
  then show ?case by (simp add: directory_bytes_def payload_size_def)
next
  case (Cons d ds)
  from Cons.prems have sd: "sane_entry d" and ps: "list_all sane_entry ds" by simp_all
  from sd have p: "parsable_entry d" and mx: "int (d_len d) \<le> MAX_SANE_LENGTH"
    by (simp_all add: sane_entry_def)
  from Cons.prems(2) have r: "rest s = entry_bytes d @ (directory_bytes ds @ r)"
    by (simp add: directory_bytes_def)
  have re: "read_entry s
      = ((d_name d, [d_type d], dec (int (d_len d))), advance (length (entry_bytes d)) s)"
    using Cons.prems(1) r p by (rule read_entry_bytes)
  let ?s1 = "advance (length (entry_bytes d)) s"
  have g1: "good ?s1" using Cons.prems(1) by simp
  have r1: "rest ?s1 = directory_bytes ds @ r" using r by simp
  note tg = tellg_good [OF Cons.prems(1)]
  note at = sane_atoi [OF sd]
  show ?case
  proof (cases "accepts e target skip_deleted d")
    case True
    let ?st1 = "st\<lparr>found := True, length_v := int (d_len d), diroffset_v := int (pos s)\<rparr>"
    have f1: "found ?st1" by simp
    have ih: "find_loop e target skip_deleted (length ds) ?s1 ?st1
        = (False, advance (length (directory_bytes ds)) ?s1, ?st1)"
      using g1 r1 ps f1 by (rule find_loop_found)
    have hit: "petscii2ascii e (d_name d) = target \<and> (d_type d \<noteq> CHR ''D'' \<or> \<not> skip_deleted)"
      using True by (simp add: accepts_def)
    show ?thesis
      using re ih mx Cons.prems(4) tg at True hit
      by (simp add: directory_bytes_def advance_advance first_char_single scanned_def
          payload_size_def)
  next
    case False
    let ?st2 = "st\<lparr>coff := coff st + int (d_len d)\<rparr>"
    have f2: "\<not> found ?st2" using Cons.prems(4) by simp
    note ih = Cons.IH [OF g1 r1 ps f2]
    have miss: "\<not> (petscii2ascii e (d_name d) = target \<and> (d_type d \<noteq> CHR ''D'' \<or> \<not> skip_deleted))"
      using False by (simp add: accepts_def)
    have step: "find_loop e target skip_deleted (length (d # ds)) s st
        = find_loop e target skip_deleted (length ds) ?s1 ?st2"
      using re mx Cons.prems(4) tg at miss
      by (auto simp: first_char_single Let_def)
    show ?thesis
    proof (cases "dropWhile (\<lambda>d. \<not> accepts e target skip_deleted d) ds")
      case Nil
      then show ?thesis
        unfolding step ih using False
        by (simp add: directory_bytes_def advance_advance scanned_def payload_size_def
            del: dropWhile_eq_Nil_conv)
    next
      case (Cons x xs)
      then show ?thesis
        unfolding step ih using False
        by (simp add: directory_bytes_def advance_advance scanned_def payload_size_def
            del: dropWhile_eq_Nil_conv)
    qed
  qed
qed

lemma find_in_lbr_archive:
  assumes f: "fs infile = Some (archive_bytes es payload)" and wf: "wf_archive es payload"
  shows "find_in_lbr e fs infile target length0 offset0 diroffset0 skip_deleted =
     (case find (accepts e target skip_deleted) es of
        None \<Rightarrow> (- 1, length0, offset0, diroffset0, [])
      | Some d \<Rightarrow>
          (0, int (d_len d),
           int (length (header_bytes (length es) @ directory_bytes es))
             + int (payload_size (scanned e target skip_deleted es)),
           int (length (header_bytes (length es)
                        @ directory_bytes (scanned e target skip_deleted es))),
           []))"
proof -
  from wf have n: "int (length es) < 2 ^ 31" and sane: "list_all sane_entry es"
    by (simp_all add: wf_archive_def)
  let ?s = "ifstream_open fs infile"
  note h = archive_header [of fs infile es payload, OF f n]
  let ?s2 = "advance (length (header_bytes (length es))) ?s"
  let ?st = "\<lparr>coff = 0, found = False, length_v = length0, diroffset_v = diroffset0\<rparr>"
  have g2: "good ?s2" using h(3) by simp
  have r2: "rest ?s2 = directory_bytes es @ payload" using h(4) by (rule rest_after_header)
  have nf: "\<not> found ?st" by simp
  have p0: "pos ?s = 0" using f by (simp add: ifstream_open_def)
  note fl = find_loop_directory [OF g2 r2 sane nf, of e target skip_deleted]
  let ?s3 = "advance (length (directory_bytes es)) ?s2"
  have t3: "tellg ?s3 = (int (pos ?s3), ?s3)" using g2 by (intro tellg_good) simp
  show ?thesis
  proof (cases "dropWhile (\<lambda>d. \<not> accepts e target skip_deleted d) es")
    case Nil
    then have "find (accepts e target skip_deleted) es = None"
      by (simp add: find_dropWhile comp_def del: dropWhile_eq_Nil_conv)
    with Nil fl show ?thesis
      by (simp add: find_in_lbr_def h(1) h(2) h(5) del: dropWhile_eq_Nil_conv)
  next
    case (Cons d ds)
    then have "find (accepts e target skip_deleted) es = Some d"
      by (simp add: find_dropWhile comp_def del: dropWhile_eq_Nil_conv)
    with Cons fl t3 p0 show ?thesis
      by (simp add: find_in_lbr_def h(1) h(2) h(5) del: dropWhile_eq_Nil_conv)
  qed
qed

text \<open>
  C6: in a well-formed archive \<open>find_in_lbr\<close> returns 0 for the first entry it accepts,
  that is the first entry whose decoded name is the target and, when deleted entries
  are skipped, whose type is not \<open>D\<close>: a matching \<open>D\<close> entry is passed over and a later
  entry of the same name is found. \<open>length\<close> is then the declared length of that entry,
  \<open>diroffset\<close> the position where its directory record begins (the header and the
  records of the entries scanned before it), and \<open>offset\<close> the position after the
  whole directory plus the declared lengths of the entries scanned before it. When no
  entry is accepted it returns -1 and leaves the three variables alone.
\<close>

theorem C6_find_in_lbr:
  assumes f: "fs infile = Some (archive_bytes es payload)" and wf: "wf_archive es payload"
  shows "find_in_lbr e fs infile target length0 offset0 diroffset0 skip_deleted =
     (case find (accepts e target skip_deleted) es of
        None \<Rightarrow> (- 1, length0, offset0, diroffset0, [])
      | Some d \<Rightarrow>
          (0, int (d_len d),
           int (length (header_bytes (length es) @ directory_bytes es))
             + int (payload_size (scanned e target skip_deleted es)),
           int (length (header_bytes (length es)
                        @ directory_bytes (scanned e target skip_deleted es))),
           []))"
  using f wf by (rule find_in_lbr_archive)

text \<open>On a directory \<open>A\<close> (deleted), \<open>B\<close>, \<open>A\<close>, \<open>C\<close>: the second \<open>A\<close> when deleted
  entries are skipped, the first when they are not, and a name that is absent.\<close>

theorem C6_find_in_lbr_witness:
  "find_in_lbr default_env [''a.lbr'' \<mapsto> dup_archive] ''a.lbr'' ''A'' 7 8 9 True
     = (0, 1, 42, 23, [])
   \<and> find_in_lbr default_env [''a.lbr'' \<mapsto> dup_archive] ''a.lbr'' ''A'' 7 8 9 False
     = (0, 0, 40, 7, [])
   \<and> find_in_lbr default_env [''a.lbr'' \<mapsto> dup_archive] ''a.lbr'' ''Z'' 7 8 9 False
     = (- 1, 7, 8, 9, [])"
proof -
  let ?fs = "[''a.lbr'' \<mapsto> dup_archive]"
  have f: "?fs ''a.lbr'' = Some (archive_bytes dup_entries ''bbaCCCCCCCCCCCC'')"
    by (simp add: dup_archive_def)
  have wf: "wf_archive dup_entries ''bbaCCCCCCCCCCCC''" by code_simp
  have r1: "(case find (accepts default_env ''A'' True) dup_entries of
        None \<Rightarrow> (- 1 :: int, 7 :: int, 8 :: int, 9 :: int, [] :: string)
      | Some d \<Rightarrow>
          (0, int (d_len d),
           int (length (header_bytes (length dup_entries) @ directory_bytes dup_entries))
             + int (payload_size (scanned default_env ''A'' True dup_entries)),
           int (length (header_bytes (length dup_entries)
                        @ directory_bytes (scanned default_env ''A'' True dup_entries))),
           [])) = (0, 1, 42, 23, [])"
    by code_simp
  have r2: "(case find (accepts default_env ''A'' False) dup_entries of
        None \<Rightarrow> (- 1 :: int, 7 :: int, 8 :: int, 9 :: int, [] :: string)
      | Some d \<Rightarrow>
          (0, int (d_len d),
           int (length (header_bytes (length dup_entries) @ directory_bytes dup_entries))
             + int (payload_size (scanned default_env ''A'' False dup_entries)),
           int (length (header_bytes (length dup_entries)
                        @ directory_bytes (scanned default_env ''A'' False dup_entries))),
           [])) = (0, 0, 40, 7, [])"
    by code_simp
  have r3: "(case find (accepts default_env ''Z'' False) dup_entries of
        None \<Rightarrow> (- 1 :: int, 7 :: int, 8 :: int, 9 :: int, [] :: string)
      | Some d \<Rightarrow>
          (0, int (d_len d),
           int (length (header_bytes (length dup_entries) @ directory_bytes dup_entries))
             + int (payload_size (scanned default_env ''Z'' False dup_entries)),
           int (length (header_bytes (length dup_entries)
                        @ directory_bytes (scanned default_env ''Z'' False dup_entries))),
           [])) = (- 1, 7, 8, 9, [])"
    by code_simp
  show ?thesis
    using C6_find_in_lbr [of ?fs "''a.lbr''" dup_entries "''bbaCCCCCCCCCCCC''" default_env "''A''" 7 8 9 True, OF f wf]
      C6_find_in_lbr [of ?fs "''a.lbr''" dup_entries "''bbaCCCCCCCCCCCC''" default_env "''A''" 7 8 9 False, OF f wf]
      C6_find_in_lbr [of ?fs "''a.lbr''" dup_entries "''bbaCCCCCCCCCCCC''" default_env "''Z''" 7 8 9 False, OF f wf]
    unfolding r1 r2 r3 by simp
qed

section \<open>The copy loops on a stream in good state\<close>

text \<open>What each loop of \<open>delete_lbr\<close> and \<open>chtype_lbr\<close> copies and where it leaves the
  stream, when the bytes ahead are known.\<close>

lemma tellg_advance: "good s \<Longrightarrow> tellg (advance n s) = (int (pos s) + int n, advance n s)"
  using tellg_good [of "advance n s"] by simp

lemma copy_before_span:
  "good s \<Longrightarrow> rest s = x @ c # r \<Longrightarrow> off = int (pos s + length x + 1) \<Longrightarrow>
     copy_before off s tmp c0 = (advance (length x + 1) s, tmp @ x, c)"
proof (induction x arbitrary: s tmp c0)
  case Nil
  then have g: "get_char s = (Some c, advance 1 s)" by (intro get_char_next) simp_all
  note t = tellg_advance [OF Nil.prems(1)]
  show ?case using Nil.prems(3)
    by (subst copy_before.simps) (simp add: g t)
next
  case (Cons a x)
  then have g: "get_char s = (Some a, advance 1 s)" by (intro get_char_next) simp_all
  note t = tellg_advance [OF Cons.prems(1)]
  have g1: "good (advance 1 s)" using Cons.prems(1) by simp
  have r1: "rest (advance 1 s) = x @ c # r" using Cons.prems(2) by simp
  have o1: "off = int (pos (advance 1 s) + length x + 1)" using Cons.prems(3) by simp
  note ih = Cons.IH [OF g1 r1 o1, of "tmp @ [a]" a]
  show ?case using Cons.prems(3) ih
    by (subst copy_before.simps) (simp add: g t advance_advance)
qed

lemma copy_upto_span:
  "good s \<Longrightarrow> rest s = x @ c # r \<Longrightarrow> off = int (pos s + length x) \<Longrightarrow>
     copy_upto off s tmp = (advance (length x + 1) s, tmp @ x)"
proof (induction x arbitrary: s tmp)
  case Nil
  then have g: "get_char s = (Some c, advance 1 s)" by (intro get_char_next) simp_all
  note t = tellg_advance [OF Nil.prems(1)]
  show ?case using Nil.prems(3)
    by (subst copy_upto.simps) (simp add: g t)
next
  case (Cons a x)
  then have g: "get_char s = (Some a, advance 1 s)" by (intro get_char_next) simp_all
  note t = tellg_advance [OF Cons.prems(1)]
  have g1: "good (advance 1 s)" using Cons.prems(1) by simp
  have r1: "rest (advance 1 s) = x @ c # r" using Cons.prems(2) by simp
  have o1: "off = int (pos (advance 1 s) + length x)" using Cons.prems(3) by simp
  note ih = Cons.IH [OF g1 r1 o1, of "tmp @ [a]"]
  show ?case using Cons.prems(3) ih
    by (subst copy_upto.simps) (simp add: g t advance_advance)
qed

lemma copy_upto_end:
  "good s \<Longrightarrow> rest s = x \<Longrightarrow> off = int (pos s + length x) \<Longrightarrow>
     \<exists>s'. copy_upto off s tmp = (s', tmp @ x) \<and> failbit s'"
proof (induction x arbitrary: s tmp)
  case Nil
  then have g: "get_char s = (None, s\<lparr>eofbit := True, failbit := True\<rparr>)"
    by (intro get_char_end) simp_all
  show ?case by (subst copy_upto.simps) (simp add: g)
next
  case (Cons a x)
  then have g: "get_char s = (Some a, advance 1 s)" by (intro get_char_next) simp_all
  note t = tellg_advance [OF Cons.prems(1)]
  have g1: "good (advance 1 s)" using Cons.prems(1) by simp
  have r1: "rest (advance 1 s) = x" using Cons.prems(2) by simp
  have o1: "off = int (pos (advance 1 s) + length x)" using Cons.prems(3) by simp
  note ih = Cons.IH [OF g1 r1 o1, of "tmp @ [a]"]
  show ?case using Cons.prems(3) ih
    by (subst copy_upto.simps) (simp add: g t)
qed

lemma copy_field_span:
  "good s \<Longrightarrow> rest s = x @ CR # r \<Longrightarrow> CR \<notin> set x \<Longrightarrow>
     copy_field s tmp = (advance (length x + 1) s, tmp @ x)"
proof (induction x arbitrary: s tmp)
  case Nil
  then have g: "get_char s = (Some CR, advance 1 s)" by (intro get_char_next) simp_all
  show ?case by (subst copy_field.simps) (simp add: g)
next
  case (Cons a x)
  then have g: "get_char s = (Some a, advance 1 s)" by (intro get_char_next) simp_all
  have g1: "good (advance 1 s)" using Cons.prems(1) by simp
  have r1: "rest (advance 1 s) = x @ CR # r" using Cons.prems(2) by simp
  have c1: "CR \<notin> set x" using Cons.prems(3) by simp
  note ih = Cons.IH [OF g1 r1 c1, of "tmp @ [a]"]
  show ?case using Cons.prems(3) ih
    by (subst copy_field.simps) (auto simp: g advance_advance)
qed

lemma skip_field_span:
  "good s \<Longrightarrow> rest s = x @ CR # r \<Longrightarrow> CR \<notin> set x \<Longrightarrow>
     skip_field s = advance (length x + 1) s"
proof (induction x arbitrary: s)
  case Nil
  then have g: "get_char s = (Some CR, advance 1 s)" by (intro get_char_next) simp_all
  show ?case by (subst skip_field.simps) (simp add: g)
next
  case (Cons a x)
  then have g: "get_char s = (Some a, advance 1 s)" by (intro get_char_next) simp_all
  have g1: "good (advance 1 s)" using Cons.prems(1) by simp
  have r1: "rest (advance 1 s) = x @ CR # r" using Cons.prems(2) by simp
  have c1: "CR \<notin> set x" using Cons.prems(3) by simp
  note ih = Cons.IH [OF g1 r1 c1]
  show ?case using Cons.prems(3) ih
    by (subst skip_field.simps) (auto simp: g advance_advance)
qed

lemma copy_rest_all:
  "good s \<Longrightarrow> rest s = x \<Longrightarrow> \<exists>s'. copy_rest s tmp = (s', tmp @ x) \<and> eofbit s'"
proof (induction x arbitrary: s tmp)
  case Nil
  then have g: "get_char s = (None, s\<lparr>eofbit := True, failbit := True\<rparr>)"
    by (intro get_char_end) simp_all
  show ?case by (subst copy_rest.simps) (simp add: g)
next
  case (Cons a x)
  then have g: "get_char s = (Some a, advance 1 s)" by (intro get_char_next) simp_all
  have g1: "good (advance 1 s)" using Cons.prems(1) by simp
  have r1: "rest (advance 1 s) = x" using Cons.prems(2) by simp
  note ih = Cons.IH [OF g1 r1, of "tmp @ [a]"]
  show ?case using ih
    by (subst copy_rest.simps) (simp add: g)
qed

lemma copy_rest_failed:
  "failbit s \<Longrightarrow> copy_rest s tmp = (s\<lparr>failbit := True\<rparr>, tmp)"
  by (subst copy_rest.simps) (simp add: get_char_def good_def)

lemma seekg_beg_good:
  "good s \<Longrightarrow> 0 \<le> off \<Longrightarrow> good (seekg_beg off s) \<and> rest (seekg_beg off s) = drop (nat off) (buf s)"
  by (simp add: seekg_beg_def good_def rest_def)

lemma seekg_beg_failed: "failbit s \<Longrightarrow> failbit (seekg_beg off s)"
  by (simp add: seekg_beg_def)

lemma buf_rest: "pos s = 0 \<Longrightarrow> buf s = rest s"
  by (simp add: rest_def)

lemma copy_before_block:
  assumes g: "good s" and r: "rest s = y @ r" and ne: "y \<noteq> []"
    and off: "off = int (pos s + length y)"
  shows "\<exists>tmp' c. copy_before off s tmp c0 = (advance (length y) s, tmp', c) \<and> tmp' @ [c] = tmp @ y"
proof -
  from ne obtain x c where y: "y = x @ [c]" by (metis rev_exhaust)
  have r': "rest s = x @ c # r" using r y by simp
  have o': "off = int (pos s + length x + 1)" using off y by simp
  from copy_before_span [OF g r' o', of tmp c0] y show ?thesis by simp
qed

lemma cut_span:
  assumes g: "good s" and r: "rest s = x @ p2 @ p3" and off: "off = int (pos s + length x)"
    and len: "len = int (length p2)"
  shows "snd (copy_rest (seekg_beg (off + len) (fst (copy_upto off s tmp)))
                (snd (copy_upto off s tmp))) = tmp @ x @ p3"
proof (cases "p2 @ p3")
  case Nil
  then have r': "rest s = x" using r by simp
  from copy_upto_end [OF g r' off, of tmp] obtain s' where
    c: "copy_upto off s tmp = (s', tmp @ x)" and f: "failbit s'" by blast
  have "failbit (seekg_beg (off + len) s')" using f by (rule seekg_beg_failed)
  then show ?thesis using c Nil by (simp add: copy_rest_failed)
next
  case (Cons c q)
  then have r': "rest s = x @ c # q" using r by simp
  note c = copy_upto_span [OF g r' off, of tmp]
  let ?s5 = "advance (length x + 1) s"
  have g5: "good ?s5" using g by simp
  have nn: "0 \<le> off + len" using off len by simp
  note sk = seekg_beg_good [OF g5 nn]
  have "drop (length x + length p2) (drop (pos s) (buf s)) = p3"
    using r by (simp add: rest_def)
  then have d: "drop (nat (off + len)) (buf ?s5) = p3"
    using off len by (simp add: nat_add_distrib add.commute add.left_commute)
  from sk d have r6: "rest (seekg_beg (off + len) ?s5) = p3" by simp
  from copy_rest_all [OF conjunct1 [OF sk] r6, of "tmp @ x"] c show ?thesis by auto
qed

lemma dec_no_CR: "0 \<le> n \<Longrightarrow> CR \<notin> set (dec n)"
  using dec_digits [of n] is_digit_not_special by blast

lemma dec_no_NUL: "0 \<le> n \<Longrightarrow> NUL \<notin> set (dec n)"
  using dec_digits [of n] is_digit_not_special by blast

lemma dec_0: "dec 0 = ''0''"
  by (simp add: dec.simps [of 0] char_of_def)

lemma record_fields:
  assumes g: "good s" and r: "rest s = entry_bytes d @ r" and p: "parsable_entry d"
  shows "copy_field s tmp = (advance (length (d_name d) + 1) s, tmp @ d_name d)"
    and "skip_field s = advance (length (d_name d) + 1) s"
    and "skip_field (advance (length (d_name d) + 1) s) = advance (length (d_name d) + 3) s"
    and "skip_field (advance (length (d_name d) + 3) s) = advance (length (entry_bytes d)) s"
    and "rest (advance (length (d_name d) + 3) s)
           = CHR '' '' # dec (int (d_len d)) @ CHR '' '' # CR # r"
proof -
  let ?nm = "d_name d" and ?ln = "dec (int (d_len d))"
  from p have nm: "CR \<notin> set ?nm" and ty: "d_type d \<noteq> CR" by (simp_all add: parsable_entry_def)
  have r0: "rest s = ?nm @ CR # ([d_type d] @ CR # (CHR '' '' # ?ln @ '' '') @ CR # r)"
    using r by (simp add: entry_bytes_def)
  show "copy_field s tmp = (advance (length ?nm + 1) s, tmp @ ?nm)"
    using g r0 nm by (rule copy_field_span)
  show "skip_field s = advance (length ?nm + 1) s"
    using g r0 nm by (rule skip_field_span)
  let ?s1 = "advance (length ?nm + 1) s"
  have g1: "good ?s1" using g by simp
  have r1: "rest ?s1 = [d_type d] @ CR # ((CHR '' '' # ?ln @ '' '') @ CR # r)"
    using r0 by simp
  have c1: "CR \<notin> set [d_type d]" using ty by simp
  from skip_field_span [OF g1 r1 c1]
  show s2: "skip_field ?s1 = advance (length ?nm + 3) s"
    by (simp add: advance_advance numeral_3_eq_3)
  let ?s2 = "advance (length ?nm + 3) s"
  have g2: "good ?s2" using g by simp
  have r2: "rest ?s2 = (CHR '' '' # ?ln @ '' '') @ CR # r"
    using r0 by simp
  then show "rest ?s2 = CHR '' '' # ?ln @ CHR '' '' # CR # r" by simp
  have c2: "CR \<notin> set (CHR '' '' # ?ln @ '' '')"
    using dec_no_CR [of "int (d_len d)"] by (simp add: CR_def)
  from skip_field_span [OF g2 r2 c2]
  show "skip_field ?s2 = advance (length (entry_bytes d)) s"
    by (simp add: advance_advance entry_bytes_def eval_nat_numeral)
qed

lemma replace_record_wipe:
  assumes g: "good s" and r: "rest s = entry_bytes d @ r" and p: "parsable_entry d"
  shows "replace_record True s tmp = (advance (length (entry_bytes d)) s, tmp)"
  using record_fields(2,3,4) [OF g r p] by (simp add: replace_record_def)

lemma replace_record_keep:
  assumes g: "good s" and r: "rest s = entry_bytes d @ r" and p: "parsable_entry d"
  shows "replace_record False s tmp
     = (advance (length (entry_bytes d)) s, tmp @ entry_bytes (tombstone d))"
proof -
  have z: "fputs '' 0 '' = '' 0 ''" by (intro fputs_id) (simp add: NUL_def)
  show ?thesis
    using record_fields(1) [OF g r p, of tmp] record_fields(3,4) [OF g r p]
    by (simp add: replace_record_def z entry_bytes_def tombstone_def dec_0)
qed

lemma wipe_header_count:
  assumes g: "good s" and r: "rest s = CHR '' '' # dec (int n) @ CHR '' '' # CR # r"
    and n: "int n < 2 ^ 31" and pos: "0 < n"
  shows "wipe_header s tmp
     = (advance (length (dec (int n)) + 3) s,
        tmp @ CHR '' '' # dec (int (n - 1)) @ CHR '' '' # [CR])"
proof -
  let ?ln = "dec (int n)"
  have n32: "int n < 2 ^ 32" using n by simp
  from parsable_dec [OF n32] have dl: "?ln \<noteq> []" "CHR '' '' \<notin> set ?ln" "NUL \<notin> set ?ln"
    "length ?ln < 256" by simp_all
  have gp1: "get_put s = (CHR '' '', advance 1 s)" using g r by (rule get_put_next)
  let ?s1 = "advance 1 s"
  have g1: "good ?s1" using g by simp
  have r1: "rest ?s1 = ?ln @ CHR '' '' # CR # r" using r by simp
  have gs: "get_str 256 (CHR '' '') ?s1 = (?ln, advance (length ?ln) ?s1)"
    using g1 r1 dl by (intro get_str_field) simp_all
  let ?s2 = "advance (length ?ln) ?s1"
  have g2: "good ?s2" using g by simp
  have r2: "rest ?s2 = CHR '' '' # CR # r" using r1 by simp
  have gp2: "get_put ?s2 = (CHR '' '', advance 1 ?s2)" using g2 r2 by (rule get_put_next)
  let ?s3 = "advance 1 ?s2"
  have g3: "good ?s3" using g by simp
  have r3: "rest ?s3 = CR # r" using r2 by simp
  have gp3: "get_put ?s3 = (CR, advance 1 ?s3)" using g3 r3 by (rule get_put_next)
  have at: "atoi ?ln = int n" using n by (intro atoi_dec) simp_all
  have m: "to_int32 (int n - 1) = int (n - 1)"
    using n pos by (subst to_int32_small) (simp_all add: of_nat_diff)
  have ts: "fputs (to_string (int (n - 1))) = dec (int (n - 1))"
    using dec_no_NUL [of "int (n - 1)"] by (simp add: to_string_def fputs_id)
  show ?thesis
    unfolding wipe_header_def Let_def gp1 gs gp2 gp3 prod.case at m ts
    by (simp add: advance_advance eval_nat_numeral)
qed

section \<open>Deleting, wiping and retyping an entry of a well-formed archive\<close>

lemma payload_size_append: "payload_size (xs @ ys) = payload_size xs + payload_size ys"
  by (simp add: payload_size_def)

lemma directory_bytes_append: "directory_bytes (xs @ ys) = directory_bytes xs @ directory_bytes ys"
  by (simp add: directory_bytes_def)

lemma directory_bytes_Cons: "directory_bytes (x # xs) = entry_bytes x @ directory_bytes xs"
  by (simp add: directory_bytes_def)

lemma find_split:
  assumes "find (accepts e target skip_deleted) es = Some d"
  shows "es = scanned e target skip_deleted es @ d # remainder e target skip_deleted es"
proof -
  let ?P = "\<lambda>d. \<not> accepts e target skip_deleted d"
  from assms obtain ds where dw: "dropWhile ?P es = d # ds"
    by (auto simp: find_dropWhile comp_def split: list.splits)
  have es: "es = takeWhile ?P es @ d # ds"
    using takeWhile_dropWhile_id [of ?P es] dw by simp
  then have "drop (Suc (length (takeWhile ?P es))) es = ds"
    by (metis append_eq_conv_conj drop_Suc_Cons drop_drop plus_1_eq_Suc drop0 list.sel(3) tl_drop)
  with es show ?thesis by (simp add: scanned_def remainder_def)
qed


lemma target_layout:
  assumes wf: "wf_archive es payload" and fd: "find (accepts e target skip_deleted) es = Some d"
  obtains p1 p2 p3 where
    "es = scanned e target skip_deleted es @ d # remainder e target skip_deleted es"
    "payload = p1 @ p2 @ p3"
    "length p1 = payload_size (scanned e target skip_deleted es)"
    "length p2 = d_len d"
    "p1 @ p3 = kept_payload e target skip_deleted es d payload"
    "sane_entry d"
proof -
  let ?pre = "scanned e target skip_deleted es" and ?post = "remainder e target skip_deleted es"
  note es = find_split [OF fd]
  from wf have len: "length payload = payload_size es" and sane: "list_all sane_entry es"
    by (simp_all add: wf_archive_def)
  have "payload_size es = payload_size ?pre + (d_len d + payload_size ?post)"
    by (subst es) (simp add: payload_size_def)
  with len have l: "payload_size ?pre + d_len d \<le> length payload" by simp
  let ?p1 = "take (payload_size ?pre) payload"
  let ?p2 = "take (d_len d) (drop (payload_size ?pre) payload)"
  let ?p3 = "drop (payload_size ?pre + d_len d) payload"
  have a: "payload = ?p1 @ ?p2 @ ?p3"
    by (metis append_take_drop_id drop_drop add.commute)
  have b: "length ?p1 = payload_size ?pre" using l by simp
  have c: "length ?p2 = d_len d" using l by simp
  have d: "?p1 @ ?p3 = kept_payload e target skip_deleted es d payload"
    by (simp add: kept_payload_def)
  have "d \<in> set es" by (subst es) simp
  with sane have e: "sane_entry d" by (simp add: list_all_iff)
  from es a b c d e show ?thesis by (rule that)
qed

lemma delete_keep_archive:
  assumes f: "fs arc = Some (archive_bytes es payload)" and wf: "wf_archive es payload"
    and fd: "find (accepts e target skip_deleted) es = Some d"
  shows "fst (delete_lbr e fs arc target skip_deleted False) = 0"
    and "fst (snd (delete_lbr e fs arc target skip_deleted False))
      = fs(arc \<mapsto> archive_bytes
           (scanned e target skip_deleted es @ tombstone d # remainder e target skip_deleted es)
           (kept_payload e target skip_deleted es d payload))"
proof -
  let ?pre = "scanned e target skip_deleted es" and ?post = "remainder e target skip_deleted es"
  let ?n = "length es"
  from target_layout [OF wf fd] obtain p1 p2 p3 where
    es: "es = ?pre @ d # ?post" and pl: "payload = p1 @ p2 @ p3"
    and l1: "length p1 = payload_size ?pre" and l2: "length p2 = d_len d"
    and kp: "p1 @ p3 = kept_payload e target skip_deleted es d payload"
    and sd: "sane_entry d" by blast
  from sd have pd: "parsable_entry d" by (simp add: sane_entry_def)
  from wf have n: "int ?n < 2 ^ 31" by (simp add: wf_archive_def)
  let ?s0 = "ifstream_open fs arc"
  note h = archive_header [of fs arc es payload, OF f n]
  have p0: "pos ?s0 = 0" using f by (simp add: ifstream_open_def)
  let ?doff = "int (length (header_bytes ?n @ directory_bytes ?pre))"
  let ?offs = "int (length (header_bytes ?n @ directory_bytes es)) + int (payload_size ?pre)"
  have fi: "find_in_lbr e fs arc target 0 0 0 skip_deleted = (0, int (d_len d), ?offs, ?doff, [])"
    using find_in_lbr_archive [of fs arc es payload e target 0 0 0 skip_deleted, OF f wf] fd by simp
  have sig: "fputs ''DWB'' = ''DWB''" by (intro fputs_id) (simp add: NUL_def)
  have dir: "directory_bytes es = directory_bytes ?pre @ entry_bytes d @ directory_bytes ?post"
    by (subst es) (simp add: directory_bytes_append directory_bytes_Cons)
  have arch: "rest ?s0 = header_bytes ?n @ directory_bytes ?pre @ entry_bytes d
       @ directory_bytes ?post @ p1 @ p2 @ p3"
    using h(4) dir pl by (simp add: archive_bytes_def)
  \<comment> \<open>up to the record\<close>
  let ?y = "CHR '' '' # dec (int ?n) @ CHR '' '' # CR # directory_bytes ?pre"
  let ?s1 = "advance 3 ?s0"
  have g1: "good ?s1" using h(3) by simp
  have r1: "rest ?s1 = ?y @ (entry_bytes d @ directory_bytes ?post @ p1 @ p2 @ p3)"
    using arch by (simp add: header_bytes_def)
  have o1: "?doff = int (pos ?s1 + length ?y)" using p0 by (simp add: header_bytes_def)
  from copy_before_block [OF g1 r1 _ o1, of "''DWB''" "stale_byte e 0"] obtain tmp' c where
    cb: "copy_before ?doff ?s1 ''DWB'' (stale_byte e 0) = (advance (length ?y) ?s1, tmp', c)"
    and t3: "tmp' @ [c] = ''DWB'' @ ?y" by auto
  let ?sA = "advance (length ?y) ?s1"
  have gA: "good ?sA" using h(3) by simp
  have rA: "rest ?sA = entry_bytes d @ (directory_bytes ?post @ p1 @ p2 @ p3)"
    using r1 by simp
  note rr = replace_record_keep [OF gA rA pd, of "tmp' @ [c]"]
  let ?sB = "advance (length (entry_bytes d)) ?sA"
  have gB: "good ?sB" using h(3) by simp
  have rB: "rest ?sB = (directory_bytes ?post @ p1) @ p2 @ p3" using rA by simp
  have oB: "?offs = int (pos ?sB + length (directory_bytes ?post @ p1))"
    using p0 l1 dir by (simp add: header_bytes_def)
  have lB: "int (d_len d) = int (length p2)" using l2 by simp
  note cs = cut_span [OF gB rB oB lB, of "(tmp' @ [c]) @ entry_bytes (tombstone d)"]
  have len': "length (?pre @ tombstone d # ?post) = ?n" by (subst (3) es) simp
  have fin: "((tmp' @ [c]) @ entry_bytes (tombstone d)) @ (directory_bytes ?post @ p1) @ p3
      = archive_bytes (?pre @ tombstone d # ?post) (kept_payload e target skip_deleted es d payload)"
    unfolding t3 archive_bytes_def len' kp [symmetric]
    by (simp add: header_bytes_def directory_bytes_append directory_bytes_Cons)
  show "fst (delete_lbr e fs arc target skip_deleted False) = 0"
    by (simp add: delete_lbr_def fi split_def Let_def)
  show "fst (snd (delete_lbr e fs arc target skip_deleted False))
      = fs(arc \<mapsto> archive_bytes (?pre @ tombstone d # ?post)
           (kept_payload e target skip_deleted es d payload))"
    unfolding fin [symmetric] cs [symmetric]
    by (simp only: delete_lbr_def fi split_def Let_def h(1) sig cb rr fst_conv snd_conv
        if_False simp_thms)
qed

lemma entry_bytes_nonempty: "entry_bytes d \<noteq> []"
  by (simp add: entry_bytes_def)

lemma directory_bytes_nonempty: "es \<noteq> [] \<Longrightarrow> directory_bytes es \<noteq> []"
  by (cases es) (simp_all add: directory_bytes_Cons entry_bytes_nonempty)

lemma wipe_archive:
  assumes f: "fs arc = Some (archive_bytes es payload)" and wf: "wf_archive es payload"
    and fd: "find (accepts e target skip_deleted) es = Some d"
    and ne: "scanned e target skip_deleted es \<noteq> []"
  shows "fst (delete_lbr e fs arc target skip_deleted True) = 0"
    and "fst (snd (delete_lbr e fs arc target skip_deleted True))
      = fs(arc \<mapsto> archive_bytes
           (scanned e target skip_deleted es @ remainder e target skip_deleted es)
           (kept_payload e target skip_deleted es d payload))"
proof -
  let ?pre = "scanned e target skip_deleted es" and ?post = "remainder e target skip_deleted es"
  let ?n = "length es"
  from target_layout [OF wf fd] obtain p1 p2 p3 where
    es: "es = ?pre @ d # ?post" and pl: "payload = p1 @ p2 @ p3"
    and l1: "length p1 = payload_size ?pre" and l2: "length p2 = d_len d"
    and kp: "p1 @ p3 = kept_payload e target skip_deleted es d payload"
    and sd: "sane_entry d" by blast
  from sd have pd: "parsable_entry d" by (simp add: sane_entry_def)
  from wf have n: "int ?n < 2 ^ 31" by (simp add: wf_archive_def)
  have npos: "0 < ?n" by (subst es) simp
  let ?s0 = "ifstream_open fs arc"
  note h = archive_header [of fs arc es payload, OF f n]
  have p0: "pos ?s0 = 0" using f by (simp add: ifstream_open_def)
  let ?doff = "int (length (header_bytes ?n @ directory_bytes ?pre))"
  let ?offs = "int (length (header_bytes ?n @ directory_bytes es)) + int (payload_size ?pre)"
  have fi: "find_in_lbr e fs arc target 0 0 0 skip_deleted = (0, int (d_len d), ?offs, ?doff, [])"
    using find_in_lbr_archive [of fs arc es payload e target 0 0 0 skip_deleted, OF f wf] fd by simp
  have sig: "fputs ''DWB'' = ''DWB''" by (intro fputs_id) (simp add: NUL_def)
  have dir: "directory_bytes es = directory_bytes ?pre @ entry_bytes d @ directory_bytes ?post"
    by (subst es) (simp add: directory_bytes_append directory_bytes_Cons)
  have arch: "rest ?s0 = header_bytes ?n @ directory_bytes ?pre @ entry_bytes d
       @ directory_bytes ?post @ p1 @ p2 @ p3"
    using h(4) dir pl by (simp add: archive_bytes_def)
  \<comment> \<open>the header\<close>
  let ?s1 = "advance 3 ?s0"
  have g1: "good ?s1" using h(3) by simp
  have r1: "rest ?s1 = CHR '' '' # dec (int ?n) @ CHR '' '' # CR # (directory_bytes ?pre
       @ entry_bytes d @ directory_bytes ?post @ p1 @ p2 @ p3)"
    using arch by (simp add: header_bytes_def)
  note wh = wipe_header_count [OF g1 r1 n npos, of "''DWB''"]
  let ?s2 = "advance (length (dec (int ?n)) + 3) ?s1"
  let ?t1 = "''DWB'' @ CHR '' '' # dec (int (?n - 1)) @ CHR '' '' # [CR]"
  \<comment> \<open>up to the record\<close>
  let ?y = "directory_bytes ?pre"
  have g2: "good ?s2" using h(3) by simp
  have r2: "rest ?s2 = ?y @ (entry_bytes d @ directory_bytes ?post @ p1 @ p2 @ p3)"
    using r1 by (simp add: eval_nat_numeral)
  have yne: "?y \<noteq> []" using ne by (rule directory_bytes_nonempty)
  have o2: "?doff = int (pos ?s2 + length ?y)" using p0 by (simp add: header_bytes_def)
  from copy_before_block [OF g2 r2 yne o2, of ?t1 "stale_byte e 0"] obtain tmp' c where
    cb: "copy_before ?doff ?s2 ?t1 (stale_byte e 0) = (advance (length ?y) ?s2, tmp', c)"
    and t3: "tmp' @ [c] = ?t1 @ ?y" by auto
  let ?sA = "advance (length ?y) ?s2"
  have gA: "good ?sA" using h(3) by simp
  have rA: "rest ?sA = entry_bytes d @ (directory_bytes ?post @ p1 @ p2 @ p3)"
    using r2 by simp
  note rr = replace_record_wipe [OF gA rA pd, of "tmp' @ [c]"]
  let ?sB = "advance (length (entry_bytes d)) ?sA"
  have gB: "good ?sB" using h(3) by simp
  have rB: "rest ?sB = (directory_bytes ?post @ p1) @ p2 @ p3" using rA by simp
  have oB: "?offs = int (pos ?sB + length (directory_bytes ?post @ p1))"
    using p0 l1 dir by (simp add: header_bytes_def)
  have lB: "int (d_len d) = int (length p2)" using l2 by simp
  note cs = cut_span [OF gB rB oB lB, of "tmp' @ [c]"]
  have len': "length (?pre @ ?post) = ?n - 1" by (subst (3) es) simp
  have fin: "(tmp' @ [c]) @ (directory_bytes ?post @ p1) @ p3
      = archive_bytes (?pre @ ?post) (kept_payload e target skip_deleted es d payload)"
    unfolding t3 archive_bytes_def len' kp [symmetric]
    by (simp add: header_bytes_def directory_bytes_append)
  show "fst (delete_lbr e fs arc target skip_deleted True) = 0"
    by (simp add: delete_lbr_def fi split_def Let_def)
  show "fst (snd (delete_lbr e fs arc target skip_deleted True))
      = fs(arc \<mapsto> archive_bytes (?pre @ ?post)
           (kept_payload e target skip_deleted es d payload))"
    unfolding fin [symmetric] cs [symmetric]
    by (simp only: delete_lbr_def fi split_def Let_def h(1) sig wh cb rr fst_conv snd_conv
        if_False if_True simp_thms)
qed

lemma chtype_archive:
  assumes f: "fs arc = Some (archive_bytes es payload)" and wf: "wf_archive es payload"
    and fd: "find (accepts e target skip_deleted) es = Some d"
    and ty: "ascii2petscii e new_type = [t]" and nz: "t \<noteq> NUL"
  shows "chtype_lbr e fs arc target new_type skip_deleted
      = (0, fs(arc \<mapsto> archive_bytes
           (scanned e target skip_deleted es @ d\<lparr>d_type := t\<rparr>
              # remainder e target skip_deleted es) payload), [])"
proof -
  let ?pre = "scanned e target skip_deleted es" and ?post = "remainder e target skip_deleted es"
  let ?n = "length es"
  note es = find_split [OF fd]
  from wf have n: "int ?n < 2 ^ 31" and sane: "list_all sane_entry es"
    by (simp_all add: wf_archive_def)
  have "d \<in> set es" by (subst es) simp
  with sane have pd: "parsable_entry d" by (simp add: list_all_iff sane_entry_def)
  let ?s0 = "ifstream_open fs arc"
  note h = archive_header [of fs arc es payload, OF f n]
  have p0: "pos ?s0 = 0" using f by (simp add: ifstream_open_def)
  let ?doff = "int (length (header_bytes ?n @ directory_bytes ?pre))"
  let ?offs = "int (length (header_bytes ?n @ directory_bytes es)) + int (payload_size ?pre)"
  have fi: "find_in_lbr e fs arc target 0 0 0 skip_deleted = (0, int (d_len d), ?offs, ?doff, [])"
    using find_in_lbr_archive [of fs arc es payload e target 0 0 0 skip_deleted, OF f wf] fd by simp
  have sig: "fputs ''DWB'' = ''DWB''" by (intro fputs_id) (simp add: NUL_def)
  have fty: "fputs (ascii2petscii e new_type) = [t]" using ty nz by (simp add: fputs_id)
  have dir: "directory_bytes es = directory_bytes ?pre @ entry_bytes d @ directory_bytes ?post"
    by (subst es) (simp add: directory_bytes_append directory_bytes_Cons)
  have arch: "rest ?s0 = header_bytes ?n @ directory_bytes ?pre @ entry_bytes d
       @ directory_bytes ?post @ payload"
    using h(4) dir by (simp add: archive_bytes_def)
  let ?y = "CHR '' '' # dec (int ?n) @ CHR '' '' # CR # directory_bytes ?pre"
  let ?s1 = "advance 3 ?s0"
  have g1: "good ?s1" using h(3) by simp
  have r1: "rest ?s1 = ?y @ (entry_bytes d @ directory_bytes ?post @ payload)"
    using arch by (simp add: header_bytes_def)
  have o1: "?doff = int (pos ?s1 + length ?y)" using p0 by (simp add: header_bytes_def)
  from copy_before_block [OF g1 r1 _ o1, of "''DWB''" "stale_byte e 0"] obtain tmp' c where
    cb: "copy_before ?doff ?s1 ''DWB'' (stale_byte e 0) = (advance (length ?y) ?s1, tmp', c)"
    and t3: "tmp' @ [c] = ''DWB'' @ ?y" by auto
  let ?sA = "advance (length ?y) ?s1"
  have gA: "good ?sA" using h(3) by simp
  have rA: "rest ?sA = entry_bytes d @ (directory_bytes ?post @ payload)"
    using r1 by simp
  note cf = record_fields(1) [OF gA rA pd, of "tmp' @ [c]"]
  note sf = record_fields(3) [OF gA rA pd]
  note rC = record_fields(5) [OF gA rA pd]
  let ?sC = "advance (length (d_name d) + 3) ?sA"
  let ?t4 = "((tmp' @ [c]) @ d_name d) @ [CR] @ [t] @ [CR]"
  have gC: "good ?sC" using h(3) by simp
  from copy_rest_all [OF gC rC, of ?t4] obtain s' where
    cr: "copy_rest ?sC ?t4 = (s', ?t4 @ CHR '' '' # dec (int (d_len d)) @ CHR '' '' # CR
           # (directory_bytes ?post @ payload))"
    and eo: "eofbit s'" by blast
  have len': "length (?pre @ d\<lparr>d_type := t\<rparr> # ?post) = ?n" by (subst (3) es) simp
  have fin: "?t4 @ CHR '' '' # dec (int (d_len d)) @ CHR '' '' # CR
           # (directory_bytes ?post @ payload)
      = archive_bytes (?pre @ d\<lparr>d_type := t\<rparr> # ?post) payload"
    unfolding t3 archive_bytes_def len'
    by (simp add: header_bytes_def directory_bytes_append directory_bytes_Cons entry_bytes_def)
  have "chtype_lbr e fs arc target new_type skip_deleted
      = (0, fs(arc \<mapsto> ?t4 @ CHR '' '' # dec (int (d_len d)) @ CHR '' '' # CR
           # (directory_bytes ?post @ payload)), [])"
    using eo
    by (simp only: chtype_lbr_def fi split_def Let_def h(1) sig fty cb cf sf cr fst_conv snd_conv
        if_False if_True simp_thms append_Nil2 append_Nil)
  then show ?thesis unfolding fin .
qed

section \<open>The archive after a deletion\<close>

lemma length_archive_bytes:
  "length (archive_bytes es payload)
     = length (header_bytes (length es)) + length (directory_bytes es) + length payload"
  by (simp add: archive_bytes_def)

lemma length_header_bytes: "length (header_bytes n) = length (dec (int n)) + 6"
  by (simp add: header_bytes_def)

lemma length_entry_bytes: "length (entry_bytes d) = length (d_name d) + length (dec (int (d_len d))) + 6"
  by (simp add: entry_bytes_def)

lemma length_kept_payload:
  assumes wf: "wf_archive es payload" and fd: "find (accepts e target skip_deleted) es = Some d"
  shows "length (kept_payload e target skip_deleted es d payload) + d_len d = length payload"
proof -
  from target_layout [OF wf fd] obtain p1 p2 p3 where
    "payload = p1 @ p2 @ p3" "length p2 = d_len d"
    "p1 @ p3 = kept_payload e target skip_deleted es d payload" by metis
  then show ?thesis by (metis length_append add.assoc add.commute)
qed

text \<open>
  C4 as stated: the archive shrinks by exactly the payload length of the target. The
  record is written anew with the length \<open>0\<close>, so it shrinks too when the length had
  more than one digit: deleting \<open>C\<close> (12 bytes) from an archive of 55 bytes leaves 42.
\<close>

theorem C4_delete_keep_counterexample:
  "length dup_archive = 55
   \<and> map_option length (fst (snd (delete_lbr default_env [''a.lbr'' \<mapsto> dup_archive]
         ''a.lbr'' ''C'' False False)) ''a.lbr'') = Some 42
   \<and> fst (snd (delete_lbr default_env [''a.lbr'' \<mapsto> dup_archive] ''a.lbr'' ''C'' False False))
        ''a.lbr''
      = Some (''DWB 4 '' @ [CR]
              @ ''A'' @ [CR] @ ''D'' @ [CR] @ '' 0 '' @ [CR]
              @ ''B'' @ [CR] @ ''S'' @ [CR] @ '' 2 '' @ [CR]
              @ ''A'' @ [CR] @ ''P'' @ [CR] @ '' 1 '' @ [CR]
              @ ''C'' @ [CR] @ ''D'' @ [CR] @ '' 0 '' @ [CR]
              @ ''bba'')"
  by code_simp

text \<open>
  C4, amended: for a well-formed archive and a target that \<open>find_in_lbr\<close> accepts,
  \<open>delete_lbr\<close> without \<open>wipe\<close> returns 0 and leaves the archive with the same number
  of entries, the record of the target written anew with the same name, type \<open>D\<close> and
  length 0, every other record unchanged, and the payload region without the bytes of
  the target. The archive shrinks by the payload length of the target and by the digits
  its length field loses.
\<close>

theorem C4_delete_keep_amended:
  assumes f: "fs arc = Some (archive_bytes es payload)" and wf: "wf_archive es payload"
    and fd: "find (accepts e target skip_deleted) es = Some d"
  shows "\<exists>out. delete_lbr e fs arc target skip_deleted False
       = (0, fs(arc \<mapsto> archive_bytes
             (scanned e target skip_deleted es @ tombstone d # remainder e target skip_deleted es)
             (kept_payload e target skip_deleted es d payload)), out)
     \<and> length (scanned e target skip_deleted es @ tombstone d # remainder e target skip_deleted es)
         = length es
     \<and> int (length (archive_bytes
             (scanned e target skip_deleted es @ tombstone d # remainder e target skip_deleted es)
             (kept_payload e target skip_deleted es d payload)))
         = int (length (archive_bytes es payload)) - int (d_len d)
             - (int (length (dec (int (d_len d)))) - 1)"
proof -
  let ?pre = "scanned e target skip_deleted es" and ?post = "remainder e target skip_deleted es"
  let ?kept = "kept_payload e target skip_deleted es d payload"
  note es = find_split [OF fd]
  note dk = delete_keep_archive [of fs arc es payload e target skip_deleted d, OF f wf fd]
  obtain out where "snd (snd (delete_lbr e fs arc target skip_deleted False)) = out" by simp
  with dk have a: "delete_lbr e fs arc target skip_deleted False
       = (0, fs(arc \<mapsto> archive_bytes (?pre @ tombstone d # ?post) ?kept), out)"
    by (metis prod.collapse)
  have b: "length (?pre @ tombstone d # ?post) = length es" by (subst (3) es) simp
  have dir: "length (directory_bytes es)
      = length (directory_bytes ?pre) + length (entry_bytes d) + length (directory_bytes ?post)"
    by (subst es) (simp add: directory_bytes_append directory_bytes_Cons)
  have hn: "header_bytes (length (?pre @ tombstone d # ?post)) = header_bytes (length es)"
    by (simp only: b)
  have dn: "length (directory_bytes (?pre @ tombstone d # ?post)) + length (dec (int (d_len d)))
      = length (directory_bytes es) + 1"
    using dir
    by (simp add: directory_bytes_append directory_bytes_Cons length_entry_bytes tombstone_def
        dec_0)
  have c: "int (length (archive_bytes (?pre @ tombstone d # ?post) ?kept))
         = int (length (archive_bytes es payload)) - int (d_len d)
             - (int (length (dec (int (d_len d)))) - 1)"
    unfolding length_archive_bytes hn
    using dn length_kept_payload [OF wf fd] by linarith
  from a b c show ?thesis by blast
qed

text \<open>Deleting \<open>B\<close> (2 bytes) from the archive of 55 bytes leaves 53.\<close>

theorem C4_delete_keep_witness:
  "\<exists>out. delete_lbr default_env [''a.lbr'' \<mapsto> dup_archive] ''a.lbr'' ''B'' False False
       = (0, [''a.lbr'' \<mapsto> ''DWB 4 '' @ [CR]
              @ ''A'' @ [CR] @ ''D'' @ [CR] @ '' 0 '' @ [CR]
              @ ''B'' @ [CR] @ ''D'' @ [CR] @ '' 0 '' @ [CR]
              @ ''A'' @ [CR] @ ''P'' @ [CR] @ '' 1 '' @ [CR]
              @ ''C'' @ [CR] @ ''S'' @ [CR] @ '' 12 '' @ [CR]
              @ ''aCCCCCCCCCCCC''], out)"
proof -
  let ?fs = "[''a.lbr'' \<mapsto> dup_archive]"
  let ?d = "\<lparr>d_name = ''B'', d_type = CHR ''S'', d_len = 2\<rparr>"
  have f: "?fs ''a.lbr'' = Some (archive_bytes dup_entries ''bbaCCCCCCCCCCCC'')"
    by (simp add: dup_archive_def)
  have wf: "wf_archive dup_entries ''bbaCCCCCCCCCCCC''" by code_simp
  have fd: "find (accepts default_env ''B'' False) dup_entries = Some ?d" by code_simp
  have r: "archive_bytes
             (scanned default_env ''B'' False dup_entries @ tombstone ?d
                # remainder default_env ''B'' False dup_entries)
             (kept_payload default_env ''B'' False dup_entries ?d ''bbaCCCCCCCCCCCC'')
      = ''DWB 4 '' @ [CR]
              @ ''A'' @ [CR] @ ''D'' @ [CR] @ '' 0 '' @ [CR]
              @ ''B'' @ [CR] @ ''D'' @ [CR] @ '' 0 '' @ [CR]
              @ ''A'' @ [CR] @ ''P'' @ [CR] @ '' 1 '' @ [CR]
              @ ''C'' @ [CR] @ ''S'' @ [CR] @ '' 12 '' @ [CR]
              @ ''aCCCCCCCCCCCC''"
    by code_simp
  from C4_delete_keep_amended [of ?fs "''a.lbr''" dup_entries "''bbaCCCCCCCCCCCC''"
      default_env "''B''" False ?d, OF f wf fd]
  show ?thesis unfolding r by auto
qed

section \<open>The archive after a wipe\<close>

text \<open>
  C3 as stated: the archive shrinks by exactly the record and the payload of the wiped
  entry. The count in the header is written anew, one less, and loses a digit when it
  falls from 10 to 9: wiping \<open>B\<close> (a record of 8 bytes, a payload of 1) from an archive
  of ten entries and 98 bytes leaves 88.
\<close>

theorem C3_wipe_counterexample:
  "length ten_archive = 98
   \<and> length (entry_bytes \<lparr>d_name = ''B'', d_type = CHR ''S'', d_len = 1\<rparr>) = 8
   \<and> map_option length (fst (snd (delete_lbr default_env [''a.lbr'' \<mapsto> ten_archive]
         ''a.lbr'' ''B'' False True)) ''a.lbr'') = Some 88
   \<and> map_option (take 7) (fst (snd (delete_lbr default_env [''a.lbr'' \<mapsto> ten_archive]
         ''a.lbr'' ''B'' False True)) ''a.lbr'') = Some (''DWB 9 '' @ [CR])"
  by code_simp

text \<open>
  Wiping the first entry: the loop of lines 380-381 reads one byte before it compares
  the position with \<open>dir_offset\<close>, and line 382 writes it, so the first byte of the name
  wiped stays in the archive, between the header and the next record.
\<close>

lemma wipe_first_entry:
  "fst (snd (delete_lbr default_env [''a.lbr'' \<mapsto> two_file_archive] ''a.lbr'' ''A'' False True))
        ''a.lbr''
     = Some (''DWB 1 '' @ [CR] @ ''A'' @ ''B'' @ [CR] @ ''S'' @ [CR] @ '' 1 '' @ [CR] @ ''b'')"
  by code_simp

text \<open>
  C3, amended: for a well-formed archive and a target that \<open>find_in_lbr\<close> accepts and
  that is not the first entry of the directory, \<open>delete_lbr\<close> with \<open>wipe\<close> returns 0 and
  leaves the archive of the other entries: the count one less, the record and the
  payload of the target gone, everything else unchanged. The archive shrinks by the
  record and the payload of the target and by the digits the count loses.
\<close>

theorem C3_wipe_amended:
  assumes f: "fs arc = Some (archive_bytes es payload)" and wf: "wf_archive es payload"
    and fd: "find (accepts e target skip_deleted) es = Some d"
    and ne: "scanned e target skip_deleted es \<noteq> []"
  shows "\<exists>out. delete_lbr e fs arc target skip_deleted True
       = (0, fs(arc \<mapsto> archive_bytes
             (scanned e target skip_deleted es @ remainder e target skip_deleted es)
             (kept_payload e target skip_deleted es d payload)), out)
     \<and> length (scanned e target skip_deleted es @ remainder e target skip_deleted es) + 1
         = length es
     \<and> int (length (archive_bytes
             (scanned e target skip_deleted es @ remainder e target skip_deleted es)
             (kept_payload e target skip_deleted es d payload)))
         = int (length (archive_bytes es payload)) - int (length (entry_bytes d)) - int (d_len d)
             - (int (length (dec (int (length es)))) - int (length (dec (int (length es) - 1))))"
proof -
  let ?pre = "scanned e target skip_deleted es" and ?post = "remainder e target skip_deleted es"
  let ?kept = "kept_payload e target skip_deleted es d payload"
  note es = find_split [OF fd]
  note dk = wipe_archive [of fs arc es payload e target skip_deleted d, OF f wf fd ne]
  obtain out where "snd (snd (delete_lbr e fs arc target skip_deleted True)) = out" by simp
  with dk have a: "delete_lbr e fs arc target skip_deleted True
       = (0, fs(arc \<mapsto> archive_bytes (?pre @ ?post) ?kept), out)"
    by (metis prod.collapse)
  have b: "length (?pre @ ?post) + 1 = length es" by (subst (3) es) simp
  from b have b': "length (?pre @ ?post) = length es - 1" by linarith
  from b have pos: "0 < length es" by linarith
  have dir: "length (directory_bytes es)
      = length (directory_bytes ?pre) + length (entry_bytes d) + length (directory_bytes ?post)"
    by (subst es) (simp add: directory_bytes_append directory_bytes_Cons)
  have hn: "header_bytes (length (?pre @ ?post)) = header_bytes (length es - 1)"
    by (simp only: b')
  have i: "int (length es - 1) = int (length es) - 1" using pos by linarith
  have dn: "length (directory_bytes (?pre @ ?post)) + length (entry_bytes d)
      = length (directory_bytes es)"
    using dir by (simp add: directory_bytes_append)
  have c: "int (length (archive_bytes (?pre @ ?post) ?kept))
         = int (length (archive_bytes es payload)) - int (length (entry_bytes d)) - int (d_len d)
             - (int (length (dec (int (length es)))) - int (length (dec (int (length es) - 1))))"
    unfolding length_archive_bytes hn length_header_bytes i
    using dn length_kept_payload [OF wf fd] by linarith
  from a b c show ?thesis by blast
qed

text \<open>Wiping the second \<open>A\<close> of the directory \<open>A\<close> (deleted), \<open>B\<close>, \<open>A\<close>, \<open>C\<close>.\<close>

theorem C3_wipe_witness:
  "\<exists>out. delete_lbr default_env [''a.lbr'' \<mapsto> dup_archive] ''a.lbr'' ''A'' True True
       = (0, [''a.lbr'' \<mapsto> ''DWB 3 '' @ [CR]
              @ ''A'' @ [CR] @ ''D'' @ [CR] @ '' 0 '' @ [CR]
              @ ''B'' @ [CR] @ ''S'' @ [CR] @ '' 2 '' @ [CR]
              @ ''C'' @ [CR] @ ''S'' @ [CR] @ '' 12 '' @ [CR]
              @ ''bbCCCCCCCCCCCC''], out)"
proof -
  let ?fs = "[''a.lbr'' \<mapsto> dup_archive]"
  let ?d = "\<lparr>d_name = ''A'', d_type = CHR ''P'', d_len = 1\<rparr>"
  have f: "?fs ''a.lbr'' = Some (archive_bytes dup_entries ''bbaCCCCCCCCCCCC'')"
    by (simp add: dup_archive_def)
  have wf: "wf_archive dup_entries ''bbaCCCCCCCCCCCC''" by code_simp
  have fd: "find (accepts default_env ''A'' True) dup_entries = Some ?d" by code_simp
  have ne: "scanned default_env ''A'' True dup_entries \<noteq> []" by code_simp
  have r: "archive_bytes
             (scanned default_env ''A'' True dup_entries
                @ remainder default_env ''A'' True dup_entries)
             (kept_payload default_env ''A'' True dup_entries ?d ''bbaCCCCCCCCCCCC'')
      = ''DWB 3 '' @ [CR]
              @ ''A'' @ [CR] @ ''D'' @ [CR] @ '' 0 '' @ [CR]
              @ ''B'' @ [CR] @ ''S'' @ [CR] @ '' 2 '' @ [CR]
              @ ''C'' @ [CR] @ ''S'' @ [CR] @ '' 12 '' @ [CR]
              @ ''bbCCCCCCCCCCCC''"
    by code_simp
  from C3_wipe_amended [of ?fs "''a.lbr''" dup_entries "''bbaCCCCCCCCCCCC''"
      default_env "''A''" True ?d, OF f wf fd ne]
  show ?thesis unfolding r by auto
qed


section \<open>The archive after a change of type\<close>

text \<open>
  C5 as stated: the archive keeps its size whatever the new type. The code writes the
  encoded \<open>TYPE\<close> argument as it is (line 444), one byte or not: retyping \<open>B\<close> as \<open>xy\<close>
  in an archive of 55 bytes leaves 56.
\<close>

theorem C5_chtype_counterexample:
  "length dup_archive = 55
   \<and> map_option length (fst (snd (chtype_lbr default_env [''a.lbr'' \<mapsto> dup_archive]
         ''a.lbr'' ''B'' ''xy'' False)) ''a.lbr'') = Some 56
   \<and> fst (snd (chtype_lbr default_env [''a.lbr'' \<mapsto> dup_archive] ''a.lbr'' ''B'' ''xy'' False))
        ''a.lbr''
      = Some (''DWB 4 '' @ [CR]
              @ ''A'' @ [CR] @ ''D'' @ [CR] @ '' 0 '' @ [CR]
              @ ''B'' @ [CR] @ ''XY'' @ [CR] @ '' 2 '' @ [CR]
              @ ''A'' @ [CR] @ ''P'' @ [CR] @ '' 1 '' @ [CR]
              @ ''C'' @ [CR] @ ''S'' @ [CR] @ '' 12 '' @ [CR]
              @ ''bbaCCCCCCCCCCCC'')"
  by code_simp

text \<open>
  C5, amended: for a well-formed archive, a target that \<open>find_in_lbr\<close> accepts and a new
  type that \<open>ascii2petscii\<close> encodes as one byte other than NUL, \<open>chtype_lbr\<close> returns 0
  and leaves the archive with the type of the target replaced: the same bytes but for
  the one at the place of the type field, and so the same size.
\<close>

theorem C5_chtype_amended:
  assumes f: "fs arc = Some (archive_bytes es payload)" and wf: "wf_archive es payload"
    and fd: "find (accepts e target skip_deleted) es = Some d"
    and ty: "ascii2petscii e new_type = [t]" and nz: "t \<noteq> NUL"
  shows "chtype_lbr e fs arc target new_type skip_deleted
       = (0, fs(arc \<mapsto> (archive_bytes es payload)
            [length (header_bytes (length es)
                     @ directory_bytes (scanned e target skip_deleted es) @ d_name d @ [CR]) := t]),
          [])
     \<and> (archive_bytes es payload)
            [length (header_bytes (length es)
                     @ directory_bytes (scanned e target skip_deleted es) @ d_name d @ [CR]) := t]
        = archive_bytes (scanned e target skip_deleted es @ d\<lparr>d_type := t\<rparr>
              # remainder e target skip_deleted es) payload
     \<and> (archive_bytes es payload)
          ! length (header_bytes (length es)
                     @ directory_bytes (scanned e target skip_deleted es) @ d_name d @ [CR])
        = d_type d
     \<and> length ((archive_bytes es payload)
            [length (header_bytes (length es)
                     @ directory_bytes (scanned e target skip_deleted es) @ d_name d @ [CR]) := t])
        = length (archive_bytes es payload)"
proof -
  let ?pre = "scanned e target skip_deleted es" and ?post = "remainder e target skip_deleted es"
  let ?A = "header_bytes (length es) @ directory_bytes ?pre @ d_name d @ [CR]"
  let ?B = "CR # CHR '' '' # dec (int (d_len d)) @ CHR '' '' # CR # directory_bytes ?post @ payload"
  note es = find_split [OF fd]
  note ch = chtype_archive [of fs arc es payload e target skip_deleted d new_type t,
      OF f wf fd ty nz]
  have dir: "directory_bytes es = directory_bytes ?pre @ entry_bytes d @ directory_bytes ?post"
    by (subst es) (simp add: directory_bytes_append directory_bytes_Cons)
  have old: "archive_bytes es payload = ?A @ d_type d # ?B"
    by (simp add: archive_bytes_def dir entry_bytes_def)
  have len': "length (?pre @ d\<lparr>d_type := t\<rparr> # ?post) = length es" by (subst (3) es) simp
  have new: "archive_bytes (?pre @ d\<lparr>d_type := t\<rparr> # ?post) payload = ?A @ t # ?B"
    unfolding archive_bytes_def len'
    by (simp add: directory_bytes_append directory_bytes_Cons entry_bytes_def)
  have upd: "(archive_bytes es payload)[length ?A := t]
      = archive_bytes (?pre @ d\<lparr>d_type := t\<rparr> # ?post) payload"
    unfolding old new by (rule list_update_length)
  have nth: "(archive_bytes es payload) ! length ?A = d_type d"
    unfolding old by (rule nth_append_length)
  have len: "length ((archive_bytes es payload)[length ?A := t]) = length (archive_bytes es payload)"
    by (rule length_list_update)
  have ch': "chtype_lbr e fs arc target new_type skip_deleted
       = (0, fs(arc \<mapsto> (archive_bytes es payload)[length ?A := t]), [])"
    unfolding upd by (rule ch)
  from ch' upd nth len show ?thesis by blast
qed

text \<open>Retyping \<open>B\<close> as \<open>p\<close>, which the encoding writes as \<open>P\<close>.\<close>

theorem C5_chtype_witness:
  "chtype_lbr default_env [''a.lbr'' \<mapsto> dup_archive] ''a.lbr'' ''B'' ''p'' False
       = (0, [''a.lbr'' \<mapsto> ''DWB 4 '' @ [CR]
              @ ''A'' @ [CR] @ ''D'' @ [CR] @ '' 0 '' @ [CR]
              @ ''B'' @ [CR] @ ''P'' @ [CR] @ '' 2 '' @ [CR]
              @ ''A'' @ [CR] @ ''P'' @ [CR] @ '' 1 '' @ [CR]
              @ ''C'' @ [CR] @ ''S'' @ [CR] @ '' 12 '' @ [CR]
              @ ''bbaCCCCCCCCCCCC''], [])"
proof -
  let ?fs = "[''a.lbr'' \<mapsto> dup_archive]"
  let ?d = "\<lparr>d_name = ''B'', d_type = CHR ''S'', d_len = 2\<rparr>"
  have f: "?fs ''a.lbr'' = Some (archive_bytes dup_entries ''bbaCCCCCCCCCCCC'')"
    by (simp add: dup_archive_def)
  have wf: "wf_archive dup_entries ''bbaCCCCCCCCCCCC''" by code_simp
  have fd: "find (accepts default_env ''B'' False) dup_entries = Some ?d" by code_simp
  have ty: "ascii2petscii default_env ''p'' = [CHR ''P'']" by code_simp
  have nz: "CHR ''P'' \<noteq> NUL" by (simp add: NUL_def)
  have r: "(archive_bytes dup_entries ''bbaCCCCCCCCCCCC'')
            [length (header_bytes (length dup_entries)
                     @ directory_bytes (scanned default_env ''B'' False dup_entries)
                     @ d_name ?d @ [CR]) := CHR ''P'']
      = ''DWB 4 '' @ [CR]
              @ ''A'' @ [CR] @ ''D'' @ [CR] @ '' 0 '' @ [CR]
              @ ''B'' @ [CR] @ ''P'' @ [CR] @ '' 2 '' @ [CR]
              @ ''A'' @ [CR] @ ''P'' @ [CR] @ '' 1 '' @ [CR]
              @ ''C'' @ [CR] @ ''S'' @ [CR] @ '' 12 '' @ [CR]
              @ ''bbaCCCCCCCCCCCC''"
    by code_simp
  from C5_chtype_amended [of ?fs "''a.lbr''" dup_entries "''bbaCCCCCCCCCCCC''"
      default_env "''B''" False ?d "''p''" "CHR ''P''", OF f wf fd ty nz]
  show ?thesis unfolding r by simp
qed

end
